theory Spec2Isabelle
  imports Main "HOL-Library.Word"
begin

section \<open>The escape parser of the socket handler\<close>

text \<open>
  The client-to-console direction of \<^verbatim>\<open>socket-handler.c\<close>: \<^verbatim>\<open>client_poll\<close> reads a
  chunk of bytes from the client's socket and feeds it through
  \<^verbatim>\<open>process_buffer_range\<close>, a scanner whose state lives in the shared console.
  Bytes are \<^verbatim>\<open>uint8_t\<close>; a pointer into the scratch buffer is an index into the list of
  the bytes it holds.
\<close>

type_synonym byte = "8 word"

definition CR :: byte where "CR = 13"
definition LF :: byte where "LF = 10"
definition tilde :: byte where "tilde = 126"
definition brk :: byte where "brk = 66"

datatype escape_state = escape_idle | escape_cr | escape_lf | escape_leader

text \<open>
  What reaches the serial line, in order: a byte written by \<^verbatim>\<open>console_data_out\<close>, or a
  break condition raised by \<^verbatim>\<open>tcsendbreak\<close>.
\<close>

datatype tty_event = Data byte | Break

record console =
  state :: escape_state
  tty :: "tty_event list"

text \<open>
  How a run of the handler can end other than by returning: an \<^verbatim>\<open>assert\<close> that fails, or
  a read of a client structure that is not allocated (after \<^verbatim>\<open>free\<close>: a use after free).
\<close>

datatype fault = AssertFailed | UseAfterFree

text \<open>
  Modelled from the spec: \<^verbatim>\<open>console_data_out\<close> lives in the console server, outside this
  file. The spec calls it forwarding bytes to the console's output sink: the bytes are
  appended, in order, to what the line has received.
\<close>

definition console_data_out :: "console \<Rightarrow> byte list \<Rightarrow> console" where
  "console_data_out c bs = c\<lparr>tty := tty c @ map Data bs\<rparr>"

text \<open>
  Modelled from the spec: \<^verbatim>\<open>tcsendbreak\<close> is the C library's; the spec calls it the
  break-signal side effect. It is recorded on the line, in order with the data.
\<close>

definition tcsendbreak :: "console \<Rightarrow> console" where
  "tcsendbreak c = c\<lparr>tty := tty c @ [Break]\<rparr>"

text \<open>The bytes of the output sink, and the number of break signals, of a line.\<close>

fun sink :: "tty_event list \<Rightarrow> byte list" where
  "sink [] = []"
| "sink (Data x # es) = x # sink es"
| "sink (Break # es) = sink es"

fun breaks :: "tty_event list \<Rightarrow> nat" where
  "breaks [] = 0"
| "breaks (Data x # es) = breaks es"
| "breaks (Break # es) = Suc (breaks es)"

text \<open>
  \<^verbatim>\<open>memchr(p, ch, n)\<close> of the C library: the position of the first \<^verbatim>\<open>ch\<close> among the
  \<^verbatim>\<open>n\<close> bytes from \<^verbatim>\<open>p\<close> on, or \<^verbatim>\<open>NULL\<close>.
\<close>

fun memchr :: "byte list \<Rightarrow> nat \<Rightarrow> byte \<Rightarrow> nat \<Rightarrow> nat option" where
  "memchr buf p ch 0 = None"
| "memchr buf p ch (Suc n) = (if buf ! p = ch then Some p else memchr buf (Suc p) ch n)"

text \<open>The bytes of \<^verbatim>\<open>buf\<close> from position \<^verbatim>\<open>b\<close> up to, not including, \<^verbatim>\<open>e\<close>.\<close>

definition slice :: "byte list \<Rightarrow> nat \<Rightarrow> nat \<Rightarrow> byte list" where
  "slice buf b e = take (e - b) (drop b buf)"

text \<open>
  \<^verbatim>\<open>process_buffer_range(sh, begin, end)\<close>. The result is the console and the returned
  cursor; the assertion \<^verbatim>\<open>begin < end\<close> is a fault. The four states are all the values
  of the enumeration, so the final \<^verbatim>\<open>return NULL\<close> of the source is not reached, and
  the cursor is never \<^verbatim>\<open>NULL\<close>. The caller owns the bytes up to \<^verbatim>\<open>end\<close>: the
  model reads \<^verbatim>\<open>buf\<close> below \<^verbatim>\<open>e\<close> only, and \<^verbatim>\<open>e\<close> is at most the length of
  \<^verbatim>\<open>buf\<close> in every statement about it.
\<close>

definition process_buffer_range ::
  "console \<Rightarrow> byte list \<Rightarrow> nat \<Rightarrow> nat \<Rightarrow> fault + (console \<times> nat)" where
  "process_buffer_range c buf b e =
    (if \<not> b < e then Inl AssertFailed
     else case state c of
       escape_idle \<Rightarrow>
         (case memchr buf b CR (e - b) of
            Some p \<Rightarrow>
              Inr (console_data_out (c\<lparr>state := escape_cr\<rparr>) (slice buf b (p + 1)), p + 1)
          | None \<Rightarrow>
             (case memchr buf b LF (e - b) of
                Some p \<Rightarrow>
                  Inr (console_data_out (c\<lparr>state := escape_lf\<rparr>) (slice buf b (p + 1)), p + 1)
              | None \<Rightarrow> Inr (console_data_out c (slice buf b e), e)))
     | escape_cr \<Rightarrow>
         (if buf ! b = LF then
            Inr (console_data_out (c\<lparr>state := escape_lf\<rparr>) (slice buf b (b + 1)), b + 1)
          else if buf ! b = tilde then Inr (c\<lparr>state := escape_leader\<rparr>, b + 1)
          else Inr (c\<lparr>state := escape_idle\<rparr>, b))
     | escape_lf \<Rightarrow>
         (if buf ! b = tilde then Inr (c\<lparr>state := escape_leader\<rparr>, b + 1)
          else Inr (c\<lparr>state := escape_idle\<rparr>, b))
     | escape_leader \<Rightarrow>
         (if buf ! b = brk then Inr (tcsendbreak (c\<lparr>state := escape_idle\<rparr>), b + 1)
          else if buf ! b = tilde then Inr (c\<lparr>state := escape_idle\<rparr>, b)
          else Inr (console_data_out (c\<lparr>state := escape_idle\<rparr>) [tilde], b)))"

text \<open>
  The loop of \<^verbatim>\<open>client_poll\<close> over one read:
  \<^verbatim>\<open>while (begin && begin < end) begin = process_buffer_range(sh, begin, end);\<close>
  The loop state is the console and \<^verbatim>\<open>begin\<close>; both are returned. Nothing in the loop
  itself bounds the number of rounds, so not returning is the value \<open>None\<close>.
\<close>

partial_function (option) feed ::
  "console \<Rightarrow> byte list \<Rightarrow> nat \<Rightarrow> nat \<Rightarrow> (fault + console \<times> nat) option" where
  "feed c buf b e =
    (if b < e then
       (case process_buffer_range c buf b e of
          Inl f \<Rightarrow> Some (Inl f)
        | Inr (c', b') \<Rightarrow> feed c' buf b' e)
     else Some (Inr (c, b)))"

declare feed.simps [code]

text \<open>
  Successive reads of one client: each chunk is what one \<^verbatim>\<open>recv\<close> returned, fed from
  its first byte to its last; the parser state is carried from one read to the next.
\<close>

fun reads :: "console \<Rightarrow> byte list list \<Rightarrow> (fault + console) option" where
  "reads c [] = Some (Inr c)"
| "reads c (x # xs) =
    (case feed c x 0 (length x) of
       None \<Rightarrow> None
     | Some (Inl f) \<Rightarrow> Some (Inl f)
     | Some (Inr (c', b')) \<Rightarrow> reads c' xs)"

definition idle_console :: console where
  "idle_console = \<lparr>state = escape_idle, tty = []\<rparr>"

subsection \<open>The scanner, one byte at a time\<close>

text \<open>
  A reference reading of the grammar, used to compare the chunked scanner with: what the
  four states do with a single byte. In the idle state every byte is forwarded and a
  newline is remembered.
\<close>

definition idle_byte :: "console \<Rightarrow> byte \<Rightarrow> console" where
  "idle_byte c x =
    c\<lparr>state := (if x = CR then escape_cr else if x = LF then escape_lf else escape_idle),
      tty := tty c @ [Data x]\<rparr>"

definition step_byte :: "console \<Rightarrow> byte \<Rightarrow> console" where
  "step_byte c x =
    (case state c of
       escape_idle \<Rightarrow> idle_byte c x
     | escape_cr \<Rightarrow>
         (if x = LF then c\<lparr>state := escape_lf, tty := tty c @ [Data x]\<rparr>
          else if x = tilde then c\<lparr>state := escape_leader\<rparr>
          else idle_byte c x)
     | escape_lf \<Rightarrow>
         (if x = tilde then c\<lparr>state := escape_leader\<rparr> else idle_byte c x)
     | escape_leader \<Rightarrow>
         (if x = brk then c\<lparr>state := escape_idle, tty := tty c @ [Break]\<rparr>
          else if x = tilde then idle_byte c x
          else idle_byte (c\<lparr>tty := tty c @ [Data tilde]\<rparr>) x))"

fun run :: "console \<Rightarrow> byte list \<Rightarrow> console" where
  "run c [] = c"
| "run c (x # xs) = run (step_byte c x) xs"

text \<open>The state a forwarded run of bytes leaves the scanner in.\<close>

definition after :: "byte list \<Rightarrow> escape_state" where
  "after xs =
    (if xs = [] then escape_idle
     else if last xs = CR then escape_cr
     else if last xs = LF then escape_lf
     else escape_idle)"

text \<open>
  The idle scan looks for a carriage return in the whole rest of the chunk before it
  looks for a line feed, and forwards everything up to the one it finds. It agrees with
  the byte-wise reading on a chunk in which no carriage return comes after a line feed
  and its leader.
\<close>

fun chunk_ok :: "byte list \<Rightarrow> bool" where
  "chunk_ok [] = True"
| "chunk_ok (x # xs) =
    ((x = LF \<and> take 1 xs = [tilde] \<longrightarrow> CR \<notin> set (drop 1 xs)) \<and> chunk_ok xs)"

text \<open>No newline is directly followed by the leader.\<close>

fun plain :: "byte list \<Rightarrow> bool" where
  "plain (x # y # zs) = (\<not> ((x = CR \<or> x = LF) \<and> y = tilde) \<and> plain (y # zs))"
| "plain zs = True"

text \<open>
  The escape sequences of the grammar as the spec words them: a newline, then the leader,
  then a discriminator byte. \<open>has_escape\<close> finds one anywhere in the input;
  \<open>ends_in_leader\<close> says the input stops after a newline and its leader, before any
  discriminator.
\<close>

fun has_escape :: "byte list \<Rightarrow> bool" where
  "has_escape (x # y # z # zs) =
    (((x = CR \<or> x = LF) \<and> y = tilde) \<or> has_escape (y # z # zs))"
| "has_escape zs = False"

fun ends_in_leader :: "byte list \<Rightarrow> bool" where
  "ends_in_leader [x, y] = ((x = CR \<or> x = LF) \<and> y = tilde)"
| "ends_in_leader (x # y # z # zs) = ends_in_leader (y # z # zs)"
| "ends_in_leader zs = False"

section \<open>Clients, sockets and the ring buffer\<close>

text \<open>
  The server-to-client direction and the life of a client. A pointer to a
  \<^verbatim>\<open>struct client\<close> is an address, a poller or a ring buffer consumer is a handle; the
  address and the handle \<open>0\<close> are \<^verbatim>\<open>NULL\<close>. \<^verbatim>\<open>size_t\<close> and \<^verbatim>\<open>ssize_t\<close> are 64 bits
  wide; an \<^verbatim>\<open>ssize_t\<close> is read in two's complement.
\<close>

type_synonym ptr = nat
type_synonym handle = nat
type_synonym size_t = "64 word"
type_synonym ssize_t = "64 word"

definition SOCKET_HANDLER_PKT_SIZE :: size_t where
  "SOCKET_HANDLER_PKT_SIZE = 512"

definition SOCKET_HANDLER_PKT_US_TIMEOUT :: nat where
  "SOCKET_HANDLER_PKT_US_TIMEOUT = 4000"

text \<open>
  Constants of the platform's headers, not of this file: \<^verbatim>\<open>SSIZE_MAX\<close> of
  \<^verbatim>\<open>limits.h\<close> for a 64-bit \<^verbatim>\<open>ssize_t\<close>, and Linux's error numbers.
\<close>

definition SSIZE_MAX :: size_t where
  "SSIZE_MAX = 0x7FFFFFFFFFFFFFFF"

definition EINVAL :: int where "EINVAL = 22"
definition ENOMEM :: int where "ENOMEM = 12"
definition ENOSYS :: int where "ENOSYS = 38"

datatype errno = EAGAIN | EWOULDBLOCK | EINTR | EPIPE | ECONNRESET

datatype pollflag = POLLIN | POLLOUT

datatype poller_ret = POLLER_OK | POLLER_REMOVE

datatype ringbuffer_poll_ret = RINGBUFFER_POLL_OK | RINGBUFFER_POLL_REMOVE

record client =
  poller :: handle
  rbc :: handle
  fd :: int
  blocked :: bool

text \<open>
  A connected socket, seen from the sender: the bytes the kernel has taken so far, and
  the outcomes of the calls of \<^verbatim>\<open>send\<close> still to come, each either a number of bytes
  the kernel is ready to take or an error.
\<close>

datatype send_outcome = Takes nat | Fails errno

record sock =
  wire :: "byte list"
  script :: "send_outcome list"

text \<open>
  \<^verbatim>\<open>send(fd, data, n, flags)\<close> of the C library: the kernel takes at most the \<open>n\<close>
  bytes offered and returns how many it took, or fails with an error number (the result
  \<open>-1\<close> of the call). Past the end of the script the peer is gone and the call fails
  with \<^verbatim>\<open>EPIPE\<close>.
\<close>

fun send :: "sock \<Rightarrow> byte list \<Rightarrow> sock \<times> (errno + nat)" where
  "send s data =
    (case script s of
       [] \<Rightarrow> (s, Inl EPIPE)
     | Fails e # rest \<Rightarrow> (s\<lparr>script := rest\<rparr>, Inl e)
     | Takes k # rest \<Rightarrow>
         (s\<lparr>wire := wire s @ take k data, script := rest\<rparr>, Inr (min k (length data))))"

text \<open>
  Modelled from the spec: the ring buffer is outside this file. The spec gives a client a
  consumer cursor into a bounded FIFO byte store, with a non-destructive peek of a
  contiguous run at an offset and a commit that advances the cursor. A consumer's view is
  the bytes it has not committed yet, oldest first, and how many of them lie before the
  store wraps around: a contiguous run stops there.
\<close>

record ring =
  rb_data :: "byte list"
  rb_wrap :: nat

text \<open>Modelled from the spec: \<^verbatim>\<open>ringbuffer_len\<close>, the number of bytes the consumer has
  not committed.\<close>

definition ringbuffer_len :: "ring \<Rightarrow> nat" where
  "ringbuffer_len r = length (rb_data r)"

text \<open>Modelled from the spec: \<^verbatim>\<open>ringbuffer_dequeue_peek\<close>, the contiguous run that
  starts at the offset; it is empty when the offset is at or past the last byte. The run
  stands for the pointer and the length that the call returns.\<close>

definition ringbuffer_dequeue_peek :: "ring \<Rightarrow> nat \<Rightarrow> byte list" where
  "ringbuffer_dequeue_peek r offset =
    (if ringbuffer_len r \<le> offset then []
     else if offset < rb_wrap r then take (rb_wrap r - offset) (drop offset (rb_data r))
     else drop offset (rb_data r))"

text \<open>Modelled from the spec: \<^verbatim>\<open>ringbuffer_dequeue_commit\<close>, which advances the cursor by
  the length given.\<close>

definition ringbuffer_dequeue_commit :: "ring \<Rightarrow> nat \<Rightarrow> ring" where
  "ringbuffer_dequeue_commit r len =
    r\<lparr>rb_data := drop len (rb_data r), rb_wrap := rb_wrap r - len\<rparr>"

text \<open>
  The socket handler and what it holds in its surroundings: the client structures and
  which of them are allocated, the array \<^verbatim>\<open>sh->clients\<close> (its length is
  \<^verbatim>\<open>n_clients\<close>), the sockets and which descriptors are open, the registered pollers
  with their events and timeout (in microseconds), the registered ring buffer consumers,
  the names of the console's handlers, and the console's parser.
\<close>

record world =
  heap :: "ptr \<Rightarrow> client"
  allocated :: "ptr set"
  sh_clients :: "ptr list"
  sockets :: "int \<Rightarrow> sock"
  open_fds :: "int set"
  pollers :: "handle set"
  poller_events :: "handle \<Rightarrow> pollflag set"
  poller_timeout :: "handle \<Rightarrow> nat option"
  consumers :: "handle set"
  rings :: "handle \<Rightarrow> ring"
  handlers :: "string list"
  cons :: console

text \<open>
  Modelled from the spec: \<^verbatim>\<open>console_poller_unregister\<close>,
  \<^verbatim>\<open>console_poller_set_events\<close>, \<^verbatim>\<open>console_poller_set_timeout\<close>,
  \<^verbatim>\<open>console_poller_register\<close>, \<^verbatim>\<open>ringbuffer_consumer_unregister\<close> and
  \<^verbatim>\<open>console_ringbuffer_consumer_register\<close> belong to the console server and the ring
  buffer, outside this file. The spec names them as the registration of an event source
  and of a consumer cursor and their removal: registering adds the handle that the call
  returns (a new consumer starts with nothing to read, and a failed registration returns
  \<^verbatim>\<open>NULL\<close> and adds nothing), unregistering removes it, and the events and the timeout
  of a poller are stored with it.
\<close>

definition console_poller_unregister :: "world \<Rightarrow> handle \<Rightarrow> world" where
  "console_poller_unregister w h = w\<lparr>pollers := pollers w - {h}\<rparr>"

definition console_poller_set_events :: "world \<Rightarrow> handle \<Rightarrow> pollflag set \<Rightarrow> world" where
  "console_poller_set_events w h ev = w\<lparr>poller_events := (poller_events w)(h := ev)\<rparr>"

definition console_poller_set_timeout :: "world \<Rightarrow> handle \<Rightarrow> nat \<Rightarrow> world" where
  "console_poller_set_timeout w h us = w\<lparr>poller_timeout := (poller_timeout w)(h := Some us)\<rparr>"

definition console_poller_register :: "world \<Rightarrow> handle \<Rightarrow> pollflag set \<Rightarrow> world" where
  "console_poller_register w h ev =
    w\<lparr>pollers := insert h (pollers w),
      poller_events := (poller_events w)(h := ev),
      poller_timeout := (poller_timeout w)(h := None)\<rparr>"

definition ringbuffer_consumer_unregister :: "world \<Rightarrow> handle \<Rightarrow> world" where
  "ringbuffer_consumer_unregister w h = w\<lparr>consumers := consumers w - {h}\<rparr>"

definition console_ringbuffer_consumer_register :: "world \<Rightarrow> handle \<Rightarrow> world" where
  "console_ringbuffer_consumer_register w h =
    (if h = 0 then w
     else w\<lparr>consumers := insert h (consumers w),
            rings := (rings w)(h := \<lparr>rb_data = [], rb_wrap = 0\<rparr>)\<rparr>)"

text \<open>\<^verbatim>\<open>close\<close> and \<^verbatim>\<open>free\<close> of the C library.\<close>

definition close_fd :: "world \<Rightarrow> int \<Rightarrow> world" where
  "close_fd w d = w\<lparr>open_fds := open_fds w - {d}\<rparr>"

definition free :: "world \<Rightarrow> ptr \<Rightarrow> world" where
  "free w p = w\<lparr>allocated := allocated w - {p}\<rparr>"

text \<open>\<^verbatim>\<open>malloc\<close> followed by \<^verbatim>\<open>memset(client, 0, sizeof(*client))\<close>, at the address given.\<close>

definition calloc_client :: "world \<Rightarrow> ptr \<Rightarrow> world" where
  "calloc_client w p =
    w\<lparr>allocated := insert p (allocated w),
      heap := (heap w)(p := \<lparr>poller = 0, rbc = 0, fd = 0, blocked = False\<rparr>)\<rparr>"

subsection \<open>Closing a client\<close>

text \<open>The search loop of \<^verbatim>\<open>client_close\<close>: the first index that holds the client, or
  \<^verbatim>\<open>n_clients\<close>.\<close>

fun find_client :: "ptr list \<Rightarrow> ptr \<Rightarrow> nat" where
  "find_client [] p = 0"
| "find_client (x # xs) p = (if x = p then 0 else Suc (find_client xs p))"

text \<open>
  \<^verbatim>\<open>client_close\<close> begins by reading \<^verbatim>\<open>client->sh\<close> and \<^verbatim>\<open>client->fd\<close>: handed a
  structure that is not allocated, it reads freed memory, before the search and its
  \<^verbatim>\<open>assert\<close> are reached.
\<close>

definition client_close :: "world \<Rightarrow> ptr \<Rightarrow> fault + world" where
  "client_close w p =
    (if p \<notin> allocated w then Inl UseAfterFree
     else
       (let c = heap w p;
            w1 = close_fd w (fd c);
            w2 = (if poller c \<noteq> 0 then console_poller_unregister w1 (poller c) else w1);
            w3 = (if rbc c \<noteq> 0 then ringbuffer_consumer_unregister w2 (rbc c) else w2);
            idx = find_client (sh_clients w3) p
        in if \<not> idx < length (sh_clients w3) then Inl AssertFailed
           else Inr ((free w3 p)\<lparr>sh_clients :=
                  take idx (sh_clients w3) @ drop (Suc idx) (sh_clients w3)\<rparr>)))"

subsection \<open>Sending\<close>

definition client_set_blocked :: "world \<Rightarrow> ptr \<Rightarrow> bool \<Rightarrow> world" where
  "client_set_blocked w p b =
    (if blocked (heap w p) = b then w
     else console_poller_set_events
            (w\<lparr>heap := (heap w)(p := (heap w p)\<lparr>blocked := b\<rparr>)\<rparr>)
            (poller (heap w p))
            (if b then {POLLIN, POLLOUT} else {POLLIN}))"

text \<open>
  The loop of \<^verbatim>\<open>send_all\<close>,
  \<^verbatim>\<open>for (pos = 0; pos < len; pos += rc) { rc = send(...); ... }\<close>, entered at \<^verbatim>\<open>pos\<close>.
  A \<^verbatim>\<open>break\<close> leaves for \<^verbatim>\<open>return (ssize_t)pos\<close>; a \<^verbatim>\<open>continue\<close> goes through the
  increment \<^verbatim>\<open>pos += rc\<close> of the loop header like the end of the body does, with the
  \<^verbatim>\<open>rc\<close> of the failed call, which is \<open>-1\<close>.
\<close>

function send_loop ::
  "world \<Rightarrow> ptr \<Rightarrow> byte list \<Rightarrow> size_t \<Rightarrow> bool \<Rightarrow> size_t \<Rightarrow> ssize_t \<times> world" where
  "send_loop w p buf len block pos =
    (if pos < len then
       (case send (sockets w (fd (heap w p)))
               (take (unat (len - pos)) (drop (unat pos) buf)) of
          (s, Inl e) \<Rightarrow>
            (let w' = w\<lparr>sockets := (sockets w)(fd (heap w p) := s)\<rparr> in
             if \<not> block \<and> (e = EAGAIN \<or> e = EWOULDBLOCK)
             then (pos, client_set_blocked w' p True)
             else if e = EINTR then send_loop w' p buf len block (pos + (- 1))
             else (- 1, w'))
        | (s, Inr n) \<Rightarrow>
            (let w' = w\<lparr>sockets := (sockets w)(fd (heap w p) := s)\<rparr> in
             if n = 0 then (- 1, w')
             else send_loop w' p buf len block (pos + word_of_nat n)))
     else (pos, w))"
  by pat_completeness auto
termination
  by (relation "measure (\<lambda>(w, p, buf, len, block, pos). length (script (sockets w (fd (heap w p)))))")
     (auto split: list.splits send_outcome.splits)

definition send_all :: "world \<Rightarrow> ptr \<Rightarrow> byte list \<Rightarrow> size_t \<Rightarrow> bool \<Rightarrow> ssize_t \<times> world" where
  "send_all w p buf len block =
    (if SSIZE_MAX < len then (word_of_int (- EINVAL), w)
     else send_loop w p buf len block 0)"

declare send_loop.simps [simp del]

text \<open>What the loop leaves alone, and that it only ever uses up the script: the facts the
  termination of the drain loop rests on.\<close>

lemma client_set_blocked_frame:
  "fd (heap (client_set_blocked w p b) q) = fd (heap w q)"
  "rbc (heap (client_set_blocked w p b) q) = rbc (heap w q)"
  "poller (heap (client_set_blocked w p b) q) = poller (heap w q)"
  "sockets (client_set_blocked w p b) = sockets w"
  "rings (client_set_blocked w p b) = rings w"
  by (simp_all add: client_set_blocked_def console_poller_set_events_def)

lemma send_loop_frame:
  "fd (heap (snd (send_loop w p buf len block pos)) q) = fd (heap w q) \<and>
   rbc (heap (snd (send_loop w p buf len block pos)) q) = rbc (heap w q) \<and>
   poller (heap (snd (send_loop w p buf len block pos)) q) = poller (heap w q) \<and>
   rings (snd (send_loop w p buf len block pos)) = rings w"
proof (induction w p buf len block pos rule: send_loop.induct)
  case (1 w p buf len block pos)
  show ?case
    apply (subst (1 2 3 4) send_loop.simps)
    using 1
    apply (auto simp: client_set_blocked_frame Let_def simp del: send.simps
                split: prod.splits sum.splits)
    done
qed

lemma send_loop_script:
  "length (script (sockets (snd (send_loop w p buf len block pos)) (fd (heap w p))))
     \<le> length (script (sockets w (fd (heap w p))))"
proof (induction w p buf len block pos rule: send_loop.induct)
  case (1 w p buf len block pos)
  show ?case
  proof (cases "pos < len")
    case False
    then show ?thesis by (subst send_loop.simps) simp
  next
    case True
    obtain s r where sr: "send (sockets w (fd (heap w p)))
        (take (unat (len - pos)) (drop (unat pos) buf)) = (s, r)" by fastforce
    then have le: "length (script s) \<le> length (script (sockets w (fd (heap w p))))"
      by (auto split: list.splits send_outcome.splits)
    let ?w = "w\<lparr>sockets := (sockets w)(fd (heap w p) := s)\<rparr>"
    show ?thesis
    proof (cases r)
      case (Inl e)
      show ?thesis
      proof (cases "e = EINTR")
        case True': True
        then have nb: "\<not> (\<not> block \<and> (e = EAGAIN \<or> e = EWOULDBLOCK))" by simp
        from "1.IH"(1) [OF True sr [symmetric] Inl refl nb True'] True' le
        show ?thesis
          apply (subst send_loop.simps)
          apply (simp add: True sr Inl Let_def del: send.simps)
          done
      next
        case False
        with le show ?thesis
          apply (subst send_loop.simps)
          apply (simp add: True sr Inl Let_def client_set_blocked_frame del: send.simps)
          done
      qed
    next
      case (Inr n)
      show ?thesis
      proof (cases "n = 0")
        case True': True
        with le show ?thesis
          apply (subst send_loop.simps)
          apply (simp add: True sr Inr Let_def del: send.simps)
          done
      next
        case False
        from "1.IH"(2) [OF True sr [symmetric] Inr refl False] le
        show ?thesis
          apply (subst send_loop.simps)
          apply (simp add: True sr Inr Let_def False del: send.simps)
          done
      qed
    qed
  qed
qed

lemma sint_EINVAL: "sint (word_of_int (- EINVAL) :: ssize_t) = - 22"
  by (simp add: EINVAL_def)

lemma EINVAL_negative: "\<not> 0 <s (word_of_int (- EINVAL) :: ssize_t)"
  by (simp only: word_sless_alt sint_EINVAL) simp

lemma send_all_frame:
  "fd (heap (snd (send_all w p buf len block)) q) = fd (heap w q)"
  "rbc (heap (snd (send_all w p buf len block)) q) = rbc (heap w q)"
  "poller (heap (snd (send_all w p buf len block)) q) = poller (heap w q)"
  "rings (snd (send_all w p buf len block)) = rings w"
  by (simp_all add: send_all_def send_loop_frame)

lemma send_all_progress:
  assumes "send_all w p buf len block = (r, w')" "0 <s r"
  shows "length (script (sockets w' (fd (heap w p)))) < length (script (sockets w (fd (heap w p))))"
proof (cases "SSIZE_MAX < len")
  case True
  with assms EINVAL_negative show ?thesis by (auto simp: send_all_def)
next
  case False
  with assms have l: "send_loop w p buf len block 0 = (r, w')" by (simp add: send_all_def)
  show ?thesis
  proof (cases "0 < len")
    case False
    with l assms(2) show ?thesis by (subst (asm) send_loop.simps) auto
  next
    case True
    obtain s x where sr: "send (sockets w (fd (heap w p)))
        (take (unat (len - 0)) (drop (unat (0 :: size_t)) buf)) = (s, x)" by fastforce
    let ?w = "w\<lparr>sockets := (sockets w)(fd (heap w p) := s)\<rparr>"
    have rec: "length (script (sockets (snd (send_loop ?w p buf len block q)) (fd (heap w p))))
        \<le> length (script s)" for q
      using send_loop_script [of ?w p buf len block q] by simp
    show ?thesis
    proof (cases "script (sockets w (fd (heap w p)))")
      case Nil
      with sr have "x = Inl EPIPE" "s = sockets w (fd (heap w p))" by auto
      with l True sr assms(2) show ?thesis
        by (subst (asm) send_loop.simps) (auto simp: Let_def word_sless_alt simp del: send.simps)
    next
      case (Cons o1 rest)
      with sr have sh: "length (script s) < length (script (sockets w (fd (heap w p))))"
        by (auto split: send_outcome.splits)
      from l True sr assms(2) sh rec show ?thesis
        apply (subst (asm) send_loop.simps)
        apply (auto simp: Let_def word_sless_alt client_set_blocked_frame
                 simp del: send.simps split: sum.splits if_splits)
         apply (metis snd_conv le_less_trans)+
        done
    qed
  qed
qed

text \<open>
  The loop of \<^verbatim>\<open>client_drain_queue\<close>. Its state is \<^verbatim>\<open>total_len\<close> and \<^verbatim>\<open>wlen\<close>; the
  run that \<^verbatim>\<open>ringbuffer_dequeue_peek\<close> returns is the buffer and its length.
\<close>

function drain_loop ::
  "world \<Rightarrow> ptr \<Rightarrow> size_t \<Rightarrow> bool \<Rightarrow> size_t \<Rightarrow> ssize_t \<Rightarrow> world \<times> size_t \<times> ssize_t" where
  "drain_loop w p force_len block total_len wlen =
    (let buf = ringbuffer_dequeue_peek (rings w (rbc (heap w p))) (unat total_len);
         len = (word_of_nat (length buf) :: size_t)
     in if len = 0 then (w, total_len, wlen)
        else (case send_all w p buf len block of
                (wlen', w') \<Rightarrow>
                  if wlen' \<le>s 0 then (w', total_len, wlen')
                  else if force_len \<noteq> 0 \<and> force_len \<le> total_len + wlen'
                  then (w', total_len + wlen', wlen')
                  else drain_loop w' p force_len block (total_len + wlen') wlen'))"
  by pat_completeness auto
termination
proof (relation "measure (\<lambda>(w, p, force_len, block, total_len, wlen).
          length (script (sockets w (fd (heap w p)))))", goal_cases)
  case 1
  show ?case by simp
next
  case (2 w p force_len block total_len wlen buf len r w')
  then have "0 <s r" by (simp add: word_sless_alt word_sle_eq)
  from send_all_progress [OF 2(4) [symmetric] this] send_all_frame(1) [of w p buf len block p] 2(4)
  show ?case by (metis (no_types, lifting) case_prod_conv in_measure snd_conv)
qed

declare drain_loop.simps [simp del]

definition client_drain_queue :: "world \<Rightarrow> ptr \<Rightarrow> size_t \<Rightarrow> int \<times> world" where
  "client_drain_queue w p force_len =
    (let block = (force_len \<noteq> 0) in
     if \<not> block \<and> blocked (heap w p) then (0, w)
     else (case drain_loop w p force_len block 0 0 of
             (w', total_len, wlen) \<Rightarrow>
               if wlen <s 0 then (- 1, w')
               else if force_len \<noteq> 0 \<and> total_len < force_len then (- 1, w')
               else (0, w'\<lparr>rings := (rings w')(rbc (heap w' p) :=
                      ringbuffer_dequeue_commit (rings w' (rbc (heap w' p))) (unat total_len))\<rparr>)))"

subsection \<open>The callbacks\<close>

definition client_ringbuffer_poll ::
  "world \<Rightarrow> ptr \<Rightarrow> size_t \<Rightarrow> fault + ringbuffer_poll_ret \<times> world" where
  "client_ringbuffer_poll w p force_len =
    (let len = (word_of_nat (ringbuffer_len (rings w (rbc (heap w p)))) :: size_t) in
     if force_len = 0 \<and> len < SOCKET_HANDLER_PKT_SIZE
     then Inr (RINGBUFFER_POLL_OK,
            console_poller_set_timeout w (poller (heap w p)) SOCKET_HANDLER_PKT_US_TIMEOUT)
     else (case client_drain_queue w p force_len of
             (rc, w') \<Rightarrow>
               if rc \<noteq> 0 then
                 (case client_close (w'\<lparr>heap := (heap w')(p := (heap w' p)\<lparr>rbc := 0\<rparr>)\<rparr>) p of
                    Inl f \<Rightarrow> Inl f
                  | Inr w'' \<Rightarrow> Inr (RINGBUFFER_POLL_REMOVE, w''))
               else Inr (RINGBUFFER_POLL_OK, w')))"

definition client_timeout :: "world \<Rightarrow> ptr \<Rightarrow> fault + poller_ret \<times> world" where
  "client_timeout w p =
    (if blocked (heap w p) then Inr (POLLER_OK, w)
     else (case client_drain_queue w p 0 of
             (rc, w') \<Rightarrow>
               if rc \<noteq> 0 then
                 (case client_close w' p of
                    Inl f \<Rightarrow> Inl f
                  | Inr w'' \<Rightarrow> Inr (POLLER_REMOVE, w''))
               else Inr (POLLER_OK, w')))"

text \<open>
  What \<^verbatim>\<open>recv\<close> returned in \<^verbatim>\<open>client_poll\<close>: an error number, or the bytes read
  into the scratch buffer (none at the end of the stream).
\<close>

datatype recv_outcome = RecvFails errno | Received "byte list"

text \<open>The label \<^verbatim>\<open>err_close\<close> of \<^verbatim>\<open>client_poll\<close>.\<close>

definition err_close :: "world \<Rightarrow> ptr \<Rightarrow> fault + poller_ret \<times> world" where
  "err_close w p =
    (case client_close (w\<lparr>heap := (heap w)(p := (heap w p)\<lparr>poller := 0\<rparr>)\<rparr>) p of
       Inl f \<Rightarrow> Inl f
     | Inr w' \<Rightarrow> Inr (POLLER_REMOVE, w'))"

text \<open>The part of \<^verbatim>\<open>client_poll\<close> from \<^verbatim>\<open>if (events & POLLOUT)\<close> on.\<close>

definition client_poll_out :: "world \<Rightarrow> ptr \<Rightarrow> pollflag set \<Rightarrow> fault + poller_ret \<times> world" where
  "client_poll_out w p events =
    (if POLLOUT \<in> events then
       (case client_drain_queue (client_set_blocked w p False) p 0 of
          (rc, w') \<Rightarrow> if rc \<noteq> 0 then err_close w' p else Inr (POLLER_OK, w'))
     else Inr (POLLER_OK, w))"

definition client_poll ::
  "world \<Rightarrow> ptr \<Rightarrow> pollflag set \<Rightarrow> recv_outcome \<Rightarrow> (fault + poller_ret \<times> world) option" where
  "client_poll w p events rcv =
    (if POLLIN \<in> events then
       (case rcv of
          RecvFails e \<Rightarrow>
            if e = EAGAIN \<or> e = EWOULDBLOCK then Some (Inr (POLLER_OK, w))
            else Some (err_close w p)
        | Received buf \<Rightarrow>
            if length buf = 0 then Some (err_close w p)
            else if \<not> length buf \<le> 4096 then Some (Inl AssertFailed)
            else (case feed (cons w) buf 0 (length buf) of
                    None \<Rightarrow> None
                  | Some (Inl f) \<Rightarrow> Some (Inl f)
                  | Some (Inr (c', b)) \<Rightarrow> Some (client_poll_out (w\<lparr>cons := c'\<rparr>) p events)))
     else Some (client_poll_out w p events))"

subsection \<open>New clients\<close>

text \<open>
  The steps that \<^verbatim>\<open>socket_poll\<close> and \<^verbatim>\<open>dbus_create_socket_consumer\<close> share: the
  structure is allocated at \<^verbatim>\<open>mp\<close> and zeroed, takes the descriptor, and is registered
  as the poller \<^verbatim>\<open>ph\<close> and as the consumer \<^verbatim>\<open>rh\<close> (\<open>0\<close> when the registration fails).
\<close>

definition new_client :: "world \<Rightarrow> ptr \<Rightarrow> int \<Rightarrow> handle \<Rightarrow> handle \<Rightarrow> world" where
  "new_client w mp d ph rh =
    (let w1 = calloc_client w mp;
         w2 = w1\<lparr>heap := (heap w1)(mp := (heap w1 mp)\<lparr>fd := d\<rparr>)\<rparr>;
         w3 = console_poller_register w2 ph {POLLIN};
         w4 = w3\<lparr>heap := (heap w3)(mp := (heap w3 mp)\<lparr>poller := ph\<rparr>)\<rparr>;
         w5 = console_ringbuffer_consumer_register w4 rh
     in w5\<lparr>heap := (heap w5)(mp := (heap w5 mp)\<lparr>rbc := rh\<rparr>)\<rparr>)"

text \<open>
  \<^verbatim>\<open>socket_poll\<close>, given what \<^verbatim>\<open>accept\<close> and \<^verbatim>\<open>malloc\<close> return and the handles the
  two registrations return. The result of \<^verbatim>\<open>malloc\<close> is not checked before it is
  written to.
\<close>

datatype crash = Segfault

definition socket_poll ::
  "world \<Rightarrow> pollflag set \<Rightarrow> int \<Rightarrow> ptr \<Rightarrow> handle \<Rightarrow> handle \<Rightarrow> crash + poller_ret \<times> world" where
  "socket_poll w events afd mp ph rh =
    (if POLLIN \<notin> events then Inr (POLLER_OK, w)
     else if afd < 0 then Inr (POLLER_OK, w)
     else if mp = 0 then Inl Segfault
     else (let w1 = new_client (w\<lparr>open_fds := insert afd (open_fds w)\<rparr>) mp afd ph rh
           in Inr (POLLER_OK, w1\<lparr>sh_clients := sh_clients w1 @ [mp]\<rparr>)))"

text \<open>
  \<^verbatim>\<open>dbus_create_socket_consumer\<close>, given what \<^verbatim>\<open>socketpair\<close> returns, what \<^verbatim>\<open>malloc\<close>
  returns and the handles of the two registrations. A call of \<^verbatim>\<open>socketpair\<close> yields the
  two descriptors, or fails; when it fails the source prints a warning with \<^verbatim>\<open>warn\<close>
  and then returns \<^verbatim>\<open>-errno\<close>, and \<^verbatim>\<open>warn\<close>, which writes to the standard error
  stream, may itself set \<^verbatim>\<open>errno\<close>. So a failure carries two numbers: the error number
  that \<^verbatim>\<open>socketpair\<close> set, and the value of \<^verbatim>\<open>errno\<close> once \<^verbatim>\<open>warn\<close> has returned,
  which is the one read by the \<^verbatim>\<open>return\<close>.
\<close>

datatype socketpair_outcome = PairFails int int | Pair int int

definition dbus_create_socket_consumer ::
  "world \<Rightarrow> socketpair_outcome \<Rightarrow> ptr \<Rightarrow> handle \<Rightarrow> handle \<Rightarrow> int \<times> world" where
  "dbus_create_socket_consumer w sp mp ph rh =
    (if ''socket'' \<notin> set (handlers w) then (- ENOSYS, w)
     else (case sp of
             PairFails e e' \<Rightarrow> (- e', w)
           | Pair fd0 fd1 \<Rightarrow>
               (let w1 = w\<lparr>open_fds := insert fd1 (insert fd0 (open_fds w))\<rparr> in
                if mp = 0 then (- ENOMEM, close_fd (close_fd w1 fd0) fd1)
                else (let w2 = new_client w1 mp fd0 ph rh in
                      if rbc (heap w2 mp) = 0
                      then (- ENOMEM, close_fd (close_fd (free w2 mp) fd0) fd1)
                      else (fd1, w2\<lparr>sh_clients := sh_clients w2 @ [mp]\<rparr>)))))"

text \<open>A world to run the handler in: one structure at address 1 around descriptor 5,
  registered as poller 7 and consumer 9, its socket and its queue given.\<close>

definition world0 :: "sock \<Rightarrow> ring \<Rightarrow> bool \<Rightarrow> world" where
  "world0 s r b =
    \<lparr>heap = (\<lambda>_. \<lparr>poller = 0, rbc = 0, fd = 0, blocked = False\<rparr>)
        (1 := \<lparr>poller = 7, rbc = 9, fd = 5, blocked = b\<rparr>),
     allocated = {1},
     sh_clients = [1],
     sockets = (\<lambda>_. \<lparr>wire = [], script = []\<rparr>)(5 := s),
     open_fds = {5},
     pollers = {7},
     poller_events = (\<lambda>_. {})(7 := (if b then {POLLIN, POLLOUT} else {POLLIN})),
     poller_timeout = (\<lambda>_. None),
     consumers = {9},
     rings = (\<lambda>_. \<lparr>rb_data = [], rb_wrap = 0\<rparr>)(9 := r),
     handlers = [''tty'', ''socket''],
     cons = idle_console\<rparr>"

subsection \<open>Predicates of the statements\<close>

text \<open>No call of \<^verbatim>\<open>send\<close> to come on the socket is interrupted by a signal.\<close>

definition uninterrupted :: "sock \<Rightarrow> bool" where
  "uninterrupted s = (Fails EINTR \<notin> set (script s))"

text \<open>
  What \<^verbatim>\<open>send_all\<close>, entered at \<^verbatim>\<open>pos\<close>, has done when no call is interrupted: it
  failed, or it returns a position up to which the bytes of the buffer went out, once
  each and in order, and it stopped short of the length only by blocking the client.
\<close>

definition sent_ok ::
  "world \<Rightarrow> ptr \<Rightarrow> byte list \<Rightarrow> size_t \<Rightarrow> size_t \<Rightarrow> ssize_t \<times> world \<Rightarrow> bool" where
  "sent_ok w p buf len pos res =
    (case res of (r, w') \<Rightarrow>
       uninterrupted (sockets w' (fd (heap w p))) \<and>
       (blocked (heap w p) \<longrightarrow> blocked (heap w' p)) \<and>
       (r = - 1 \<or>
          pos \<le> r \<and> r \<le> len \<and>
          wire (sockets w' (fd (heap w p))) =
            wire (sockets w (fd (heap w p))) @ take (unat r - unat pos) (drop (unat pos) buf) \<and>
          (r < len \<longrightarrow> blocked (heap w' p))))"

text \<open>
  The same for the drain loop entered at \<^verbatim>\<open>total_len\<close>: it stopped on a failed send, or
  the queued bytes up to the returned total went out, and it stopped because the queue
  is exhausted, the forced length is reached or the client is blocked.
\<close>

definition drain_ok ::
  "world \<Rightarrow> ptr \<Rightarrow> size_t \<Rightarrow> size_t \<Rightarrow> world \<times> size_t \<times> ssize_t \<Rightarrow> bool" where
  "drain_ok w p force_len total_len res =
    (case res of (w', total_len', wlen') \<Rightarrow>
       uninterrupted (sockets w' (fd (heap w p))) \<and>
       rings w' = rings w \<and> rbc (heap w' p) = rbc (heap w p) \<and>
       fd (heap w' p) = fd (heap w p) \<and>
       (wlen' <s 0 \<or>
          total_len \<le> total_len' \<and> unat total_len' \<le> length (rb_data (rings w (rbc (heap w p)))) \<and>
          wire (sockets w' (fd (heap w p))) =
            wire (sockets w (fd (heap w p))) @
              take (unat total_len' - unat total_len)
                (drop (unat total_len) (rb_data (rings w (rbc (heap w p))))) \<and>
          (unat total_len' = length (rb_data (rings w (rbc (heap w p)))) \<or>
           force_len \<noteq> 0 \<and> force_len \<le> total_len' \<or>
           blocked (heap w' p))))"

text \<open>
  What a call of \<^verbatim>\<open>send\<close> that offers at least one byte met at the socket: it took some
  bytes; it would have blocked; or, for a sender that does not wait, it failed, with an
  error other than would-block and interruption or with a result of zero bytes, which
  \<^verbatim>\<open>send_all\<close> takes for a closed peer.
\<close>

definition takes_some :: "send_outcome \<Rightarrow> bool" where
  "takes_some x = (case x of Takes k \<Rightarrow> 0 < k | Fails e \<Rightarrow> False)"

definition would_block :: "send_outcome \<Rightarrow> bool" where
  "would_block x = (x = Fails EAGAIN \<or> x = Fails EWOULDBLOCK)"

definition send_fails :: "send_outcome \<Rightarrow> bool" where
  "send_fails x =
    (case x of Takes k \<Rightarrow> k = 0
     | Fails e \<Rightarrow> e \<noteq> EAGAIN \<and> e \<noteq> EWOULDBLOCK \<and> e \<noteq> EINTR)"

text \<open>
  What \<^verbatim>\<open>send_all\<close> in non-blocking mode, entered at \<^verbatim>\<open>pos\<close>, has asked of the socket
  when no call is interrupted: the outcomes it used up are a prefix of the script. When
  it fails, the last of them is a failed send or the script has run out, and not all of
  the buffer went out; when it returns a position, every call took some bytes or would
  have blocked, the client is blocked exactly if it was or a call would have blocked, and
  a position short of the length comes from a last call that would have blocked.
\<close>

definition sent_trace ::
  "world \<Rightarrow> ptr \<Rightarrow> byte list \<Rightarrow> size_t \<Rightarrow> size_t \<Rightarrow> ssize_t \<times> world \<Rightarrow> bool" where
  "sent_trace w p buf len pos res =
    (case res of (r, w') \<Rightarrow>
       (\<exists>used. script (sockets w (fd (heap w p))) = used @ script (sockets w' (fd (heap w p))) \<and>
          (r = - 1 \<longrightarrow>
             (used \<noteq> [] \<and> send_fails (last used) \<or> script (sockets w' (fd (heap w p))) = []) \<and>
             (\<exists>m. unat pos \<le> m \<and> m < unat len \<and>
                wire (sockets w' (fd (heap w p))) =
                  wire (sockets w (fd (heap w p))) @ take (m - unat pos) (drop (unat pos) buf))) \<and>
          (r \<noteq> - 1 \<longrightarrow>
             (\<forall>x \<in> set used. takes_some x \<or> would_block x) \<and>
             (blocked (heap w' p) \<longleftrightarrow> blocked (heap w p) \<or> (\<exists>x \<in> set used. would_block x)) \<and>
             (r < len \<longrightarrow> used \<noteq> [] \<and> would_block (last used)) \<and>
             length (filter takes_some used) \<le> unat r - unat pos)))"

text \<open>The same for the loop of an unforced drain entered at \<^verbatim>\<open>total_len\<close>.\<close>

definition drain_trace ::
  "world \<Rightarrow> ptr \<Rightarrow> size_t \<Rightarrow> world \<times> size_t \<times> ssize_t \<Rightarrow> bool" where
  "drain_trace w p total_len res =
    (case res of (w', total_len', wlen') \<Rightarrow>
       (\<exists>used. script (sockets w (fd (heap w p))) = used @ script (sockets w' (fd (heap w p))) \<and>
          (wlen' <s 0 \<longrightarrow>
             (used \<noteq> [] \<and> send_fails (last used) \<or> script (sockets w' (fd (heap w p))) = []) \<and>
             (\<exists>m. unat total_len \<le> m \<and> m < length (rb_data (rings w (rbc (heap w p)))) \<and>
                wire (sockets w' (fd (heap w p))) =
                  wire (sockets w (fd (heap w p))) @
                    take (m - unat total_len)
                      (drop (unat total_len) (rb_data (rings w (rbc (heap w p))))))) \<and>
          (\<not> wlen' <s 0 \<longrightarrow>
             (\<forall>x \<in> set used. takes_some x \<or> would_block x) \<and>
             (blocked (heap w' p) \<longleftrightarrow> blocked (heap w p) \<or> (\<exists>x \<in> set used. would_block x)) \<and>
             (unat total_len' < length (rb_data (rings w (rbc (heap w p)))) \<longrightarrow>
                used \<noteq> [] \<and> would_block (last used)) \<and>
             length (filter takes_some used) \<le> unat total_len' - unat total_len)))"

text \<open>Sending changes sockets, queues, blocked flags and poller events: everything else
  of the second world is as in the first.\<close>

definition same_registry :: "world \<Rightarrow> world \<Rightarrow> bool" where
  "same_registry w w' =
    (sh_clients w' = sh_clients w \<and> allocated w' = allocated w \<and>
     open_fds w' = open_fds w \<and> pollers w' = pollers w \<and> consumers w' = consumers w \<and>
     handlers w' = handlers w \<and> cons w' = cons w \<and> poller_timeout w' = poller_timeout w \<and>
     (\<forall>q. fd (heap w' q) = fd (heap w q) \<and> rbc (heap w' q) = rbc (heap w q) \<and>
          poller (heap w' q) = poller (heap w q)))"

text \<open>The second world is the first after the client at \<^verbatim>\<open>p\<close> has been closed.\<close>

definition closed_from :: "world \<Rightarrow> ptr \<Rightarrow> world \<Rightarrow> bool" where
  "closed_from w p w' =
    (open_fds w' = open_fds w - {fd (heap w p)} \<and>
     pollers w' = (if poller (heap w p) \<noteq> 0 then pollers w - {poller (heap w p)} else pollers w) \<and>
     consumers w' = (if rbc (heap w p) \<noteq> 0 then consumers w - {rbc (heap w p)} else consumers w) \<and>
     allocated w' = allocated w - {p} \<and>
     sh_clients w' = remove1 p (sh_clients w) \<and>
     heap w' = heap w \<and> sockets w' = sockets w \<and> rings w' = rings w \<and>
     poller_events w' = poller_events w \<and> poller_timeout w' = poller_timeout w \<and>
     handlers w' = handlers w \<and> cons w' = cons w)"

text \<open>The connection set holds every allocated client, each once.\<close>

definition well_formed :: "world \<Rightarrow> bool" where
  "well_formed w = (distinct (sh_clients w) \<and> set (sh_clients w) = allocated w)"

section \<open>Progress and termination of the feed loop\<close>

lemma memchr_None: "memchr buf p ch n = None \<longleftrightarrow> (\<forall>i<n. buf ! (p + i) \<noteq> ch)"
proof (induction n arbitrary: p)
  case 0
  then show ?case by simp
next
  case (Suc n)
  show ?case
  proof (cases "buf ! p = ch")
    case True
    then show ?thesis by (auto intro: exI [of _ 0])
  next
    case False
    have "(\<forall>i<Suc n. buf ! (p + i) \<noteq> ch) \<longleftrightarrow> (\<forall>i<n. buf ! (Suc p + i) \<noteq> ch)"
      using False by (auto simp: less_Suc_eq_0_disj)
    with False Suc show ?thesis by simp
  qed
qed

lemma memchr_Some:
  "memchr buf p ch n = Some q \<Longrightarrow>
     p \<le> q \<and> q < p + n \<and> buf ! q = ch \<and> (\<forall>i. p \<le> i \<and> i < q \<longrightarrow> buf ! i \<noteq> ch)"
proof (induction n arbitrary: p)
  case 0
  then show ?case by simp
next
  case (Suc n)
  show ?case
  proof (cases "buf ! p = ch")
    case True
    with Suc.prems show ?thesis by auto
  next
    case False
    with Suc.prems have "memchr buf (Suc p) ch n = Some q" by simp
    from Suc.IH [OF this] have q: "Suc p \<le> q" "q < Suc p + n" "buf ! q = ch"
      and r: "\<forall>i. Suc p \<le> i \<and> i < q \<longrightarrow> buf ! i \<noteq> ch" by auto
    have "buf ! i \<noteq> ch" if "p \<le> i" "i < q" for i
    proof (cases "i = p")
      case True
      with False show ?thesis by simp
    next
      case False
      with that r show ?thesis by auto
    qed
    with q show ?thesis by auto
  qed
qed

lemma pbr_progress:
  assumes "b < e"
  shows "\<exists>c' p. process_buffer_range c buf b e = Inr (c', p) \<and> b \<le> p \<and> p \<le> e \<and>
           (p = b \<longrightarrow> state c \<noteq> escape_idle \<and> state c' = escape_idle)"
  using assms
  by (cases "state c")
     (auto simp: process_buffer_range_def console_data_out_def tcsendbreak_def
           split: option.splits dest!: memchr_Some)

lemma feed_total:
  "b \<le> e \<Longrightarrow> \<exists>c'. feed c buf b e = Some (Inr (c', e))"
proof (induction "2 * (e - b) + (if state c = escape_idle then 0 else 1)"
         arbitrary: c b rule: less_induct)
  case less
  show ?case
  proof (cases "b < e")
    case False
    with less.prems show ?thesis by (simp add: feed.simps)
  next
    case True
    from pbr_progress [OF True] obtain c1 p where
      r: "process_buffer_range c buf b e = Inr (c1, p)" and p: "b \<le> p" "p \<le> e"
      and st: "p = b \<longrightarrow> state c \<noteq> escape_idle \<and> state c1 = escape_idle"
      by blast
    have "2 * (e - p) + (if state c1 = escape_idle then 0 else 1)
            < 2 * (e - b) + (if state c = escape_idle then 0 else 1)"
      using p st True by (cases "p = b") auto
    from less.hyps [OF this p(2)] obtain c' where "feed c1 buf p e = Some (Inr (c', e))"
      by blast
    with r True show ?thesis by (subst feed.simps) simp
  qed
qed

text \<open>
  C10. On a non-empty range \<^verbatim>\<open>process_buffer_range\<close> returns a position between
  \<^verbatim>\<open>begin\<close> and \<^verbatim>\<open>end\<close>; when it returns \<^verbatim>\<open>begin\<close> itself it has set the state to
  idle, and from the idle state it consumes at least one byte. So the loop of
  \<^verbatim>\<open>client_poll\<close> returns, with \<^verbatim>\<open>begin\<close> at \<^verbatim>\<open>end\<close>.
\<close>

theorem feed_loop_terminates:
  assumes "b < e"
  shows "(\<exists>c' p. process_buffer_range c buf b e = Inr (c', p) \<and> b \<le> p \<and> p \<le> e \<and>
            (p = b \<longrightarrow> state c' = escape_idle) \<and> (state c = escape_idle \<longrightarrow> b < p)) \<and>
         (\<exists>c'. feed c buf b e = Some (Inr (c', e)))"
proof -
  from pbr_progress [OF assms] obtain c1 p where
    "process_buffer_range c buf b e = Inr (c1, p)" "b \<le> p" "p \<le> e"
    "p = b \<longrightarrow> state c \<noteq> escape_idle \<and> state c1 = escape_idle"
    by blast
  then have "\<exists>c' p. process_buffer_range c buf b e = Inr (c', p) \<and> b \<le> p \<and> p \<le> e \<and>
            (p = b \<longrightarrow> state c' = escape_idle) \<and> (state c = escape_idle \<longrightarrow> b < p)"
    by (cases "p = b") auto
  moreover from assms feed_total [of b e c buf]
  have "\<exists>c'. feed c buf b e = Some (Inr (c', e))" by simp
  ultimately show ?thesis by blast
qed

text \<open>After a line feed, the byte \<^verbatim>\<open>x\<close> is not consumed by the first call, which sets the
  state to idle; the loop goes on and forwards both bytes.\<close>

theorem feed_loop_terminates_witness:
  "(0::nat) < 2 \<and>
   process_buffer_range \<lparr>state = escape_lf, tty = []\<rparr> [120, 126] 0 2 =
     Inr (\<lparr>state = escape_idle, tty = []\<rparr>, 0) \<and>
   feed \<lparr>state = escape_lf, tty = []\<rparr> [120, 126] 0 2 =
     Some (Inr (\<lparr>state = escape_idle, tty = [Data 120, Data 126]\<rparr>, 2))"
proof -
  have h: "(0::nat) < 2" by simp
  have "feed \<lparr>state = escape_lf, tty = []\<rparr> [120, 126] 0 2 =
     Some (Inr (\<lparr>state = escape_idle, tty = [Data 120, Data 126]\<rparr>, 2))"
    by code_simp
  moreover have "process_buffer_range \<lparr>state = escape_lf, tty = []\<rparr> [120, 126] 0 2 =
     Inr (\<lparr>state = escape_idle, tty = []\<rparr>, 0)"
    by code_simp
  ultimately show ?thesis
    using h feed_loop_terminates [OF h, of "\<lparr>state = escape_lf, tty = []\<rparr>" "[120, 126]"]
    by simp
qed

section \<open>The chunked scanner against the byte-wise reading\<close>

subsection \<open>Byte ranges\<close>

lemma slice_empty [simp]: "slice buf b b = []"
  by (simp add: slice_def)

lemma slice_Cons:
  assumes "b < e" "e \<le> length buf"
  shows "slice buf b e = buf ! b # slice buf (Suc b) e"
proof -
  from assms have d: "drop b buf = buf ! b # drop (Suc b) buf"
    by (simp add: Cons_nth_drop_Suc)
  from assms have "e - b = Suc (e - Suc b)" by simp
  with d show ?thesis by (simp add: slice_def)
qed

lemma slice_split:
  "b \<le> p \<Longrightarrow> p \<le> e \<Longrightarrow> slice buf b e = slice buf b p @ slice buf p e"
proof -
  assume a: "b \<le> p" "p \<le> e"
  then have "e - b = (p - b) + (e - p)" by simp
  then have "take (e - b) (drop b buf) = take (p - b) (drop b buf) @ take (e - p) (drop (p - b) (drop b buf))"
    by (simp only: take_add)
  with a show ?thesis by (simp add: slice_def)
qed

lemma slice_whole [simp]: "slice buf 0 (length buf) = buf"
  by (simp add: slice_def)

lemma slice_nth: "e \<le> length buf \<Longrightarrow> i < e - b \<Longrightarrow> slice buf b e ! i = buf ! (b + i)"
  by (simp add: slice_def)

lemma length_slice: "e \<le> length buf \<Longrightarrow> length (slice buf b e) = e - b"
  by (simp add: slice_def)

lemma chunk_ok_append2: "chunk_ok (xs @ ys) \<Longrightarrow> chunk_ok ys"
  by (induction xs) auto

lemma chunk_ok_append1: "chunk_ok (xs @ ys) \<Longrightarrow> chunk_ok xs"
proof (induction xs)
  case Nil
  then show ?case by simp
next
  case (Cons x xs)
  then have ok: "chunk_ok xs" by simp
  have "CR \<notin> set (drop 1 xs)" if "x = LF" "take 1 xs = [tilde]"
  proof -
    from that(2) have "xs \<noteq> []" by auto
    then have "take 1 (xs @ ys) = [tilde]" "drop 1 (xs @ ys) = drop 1 xs @ ys"
      using that(2) by (cases xs; simp)+
    with Cons.prems that(1) show ?thesis by simp
  qed
  with ok show ?case by simp
qed

lemma plain_snocD: "plain (xs @ [x]) \<Longrightarrow> plain xs"
  by (induction xs rule: plain.induct) auto

lemma plain_snoc_last:
  "plain (xs @ [x]) \<Longrightarrow> xs \<noteq> [] \<Longrightarrow> last xs = CR \<or> last xs = LF \<Longrightarrow> x \<noteq> tilde"
  by (induction xs rule: plain.induct) auto

lemma bytes_distinct [simp]:
  "CR \<noteq> LF" "LF \<noteq> CR" "CR \<noteq> tilde" "tilde \<noteq> CR" "LF \<noteq> tilde" "tilde \<noteq> LF"
  "brk \<noteq> CR" "CR \<noteq> brk" "brk \<noteq> LF" "LF \<noteq> brk" "brk \<noteq> tilde" "tilde \<noteq> brk"
  by (simp_all add: CR_def LF_def tilde_def brk_def)

lemma run_append: "run c (xs @ ys) = run (run c xs) ys"
  by (induction xs arbitrary: c) auto

lemma step_plain:
  assumes "state c = escape_idle \<or> ((state c = escape_cr \<or> state c = escape_lf) \<and> x \<noteq> tilde)"
  shows "step_byte c x = c\<lparr>state := after [x], tty := tty c @ [Data x]\<rparr>"
  using assms by (cases "state c") (auto simp: step_byte_def idle_byte_def after_def)

lemma after_snoc: "after (xs @ [x]) = after [x]"
  by (simp add: after_def)

lemma run_plain:
  "state c = escape_idle \<Longrightarrow> plain xs \<Longrightarrow>
     run c xs = c\<lparr>state := after xs, tty := tty c @ map Data xs\<rparr>"
proof (induction xs rule: rev_induct)
  case Nil
  then show ?case by (simp add: after_def)
next
  case (snoc x xs)
  from snoc.prems have p: "plain xs" by (auto dest: plain_snocD)
  note ih = snoc.IH [OF snoc.prems(1) p]
  let ?c = "c\<lparr>state := after xs, tty := tty c @ map Data xs\<rparr>"
  have "state ?c = escape_idle \<or> ((state ?c = escape_cr \<or> state ?c = escape_lf) \<and> x \<noteq> tilde)"
    using plain_snoc_last [OF snoc.prems(2)] by (auto simp: after_def)
  from step_plain [OF this] have "step_byte ?c x = ?c\<lparr>state := after [x], tty := tty ?c @ [Data x]\<rparr>" .
  then show ?case by (simp add: run_append ih after_snoc)
qed

lemma chunk_ok_upto_CR:
  "chunk_ok (us @ CR # vs) \<Longrightarrow> CR \<notin> set us \<Longrightarrow> plain (us @ [CR])"
proof (induction us)
  case Nil
  then show ?case by simp
next
  case (Cons x us)
  then have ih: "plain (us @ [CR])" by simp
  show ?case
  proof (cases us)
    case Nil
    then show ?thesis by simp
  next
    case (Cons y us')
    with Cons.prems ih show ?thesis by auto
  qed
qed

lemma plain_no_newline: "CR \<notin> set xs \<Longrightarrow> LF \<notin> set xs \<Longrightarrow> plain xs"
  by (induction xs rule: plain.induct) auto

lemma plain_upto_LF: "CR \<notin> set us \<Longrightarrow> LF \<notin> set us \<Longrightarrow> plain (us @ [x])"
  by (induction us rule: plain.induct) auto

lemma slice_set:
  assumes "e \<le> length buf" "x \<in> set (slice buf b e)"
  shows "\<exists>i. b \<le> i \<and> i < e \<and> buf ! i = x"
proof -
  from assms(2) obtain k where k: "k < length (slice buf b e)" "slice buf b e ! k = x"
    by (auto simp: in_set_conv_nth)
  with assms(1) have "k < e - b" "buf ! (b + k) = x"
    by (simp_all add: length_slice slice_nth)
  then show ?thesis by (intro exI [of _ "b + k"]) auto
qed

lemma slice_snoc:
  assumes "b \<le> p" "p < e" "e \<le> length buf"
  shows "slice buf b (Suc p) = slice buf b p @ [buf ! p]"
proof -
  have "slice buf b (Suc p) = slice buf b p @ slice buf p (Suc p)"
    using assms by (intro slice_split) auto
  moreover have "slice buf p (Suc p) = [buf ! p]"
    using assms slice_Cons [of p "Suc p" buf] by simp
  ultimately show ?thesis by simp
qed

lemma feed_step:
  "b < e \<Longrightarrow> process_buffer_range c buf b e = Inr (c1, p1) \<Longrightarrow>
     feed c buf b e = feed c1 buf p1 e"
  by (subst feed.simps) simp

lemma idle_CR:
  assumes st: "state c = escape_idle" and be: "b < e" "e \<le> length buf"
    and m: "memchr buf b CR (e - b) = Some p" and ok: "chunk_ok (slice buf b e)"
  shows "b \<le> p \<and> p < e \<and>
         process_buffer_range c buf b e = Inr (run c (slice buf b (Suc p)), Suc p) \<and>
         state (run c (slice buf b (Suc p))) = escape_cr"
proof -
  from memchr_Some [OF m] be have p: "b \<le> p" "p < e" "buf ! p = CR"
    and no: "\<forall>i. b \<le> i \<and> i < p \<longrightarrow> buf ! i \<noteq> CR" by auto
  have sn: "slice buf b (Suc p) = slice buf b p @ [CR]"
    using slice_snoc [OF p(1,2) be(2)] p(3) by simp
  have nocr: "CR \<notin> set (slice buf b p)"
  proof
    assume "CR \<in> set (slice buf b p)"
    with slice_set [of p buf CR b] p be obtain i where "b \<le> i" "i < p" "buf ! i = CR" by auto
    with no show False by auto
  qed
  have "slice buf b e = slice buf b (Suc p) @ slice buf (Suc p) e"
    using p by (intro slice_split) auto
  with sn ok have "chunk_ok (slice buf b p @ CR # slice buf (Suc p) e)" by simp
  from chunk_ok_upto_CR [OF this nocr] have pl: "plain (slice buf b (Suc p))" by (simp add: sn)
  from run_plain [OF st pl]
  have r: "run c (slice buf b (Suc p)) =
           c\<lparr>state := escape_cr, tty := tty c @ map Data (slice buf b (Suc p))\<rparr>"
    by (simp add: sn after_def)
  have "process_buffer_range c buf b e =
          Inr (c\<lparr>state := escape_cr, tty := tty c @ map Data (slice buf b (Suc p))\<rparr>, Suc p)"
    using st be m by (simp add: process_buffer_range_def console_data_out_def)
  with r p show ?thesis by simp
qed

lemma idle_LF:
  assumes st: "state c = escape_idle" and be: "b < e" "e \<le> length buf"
    and m0: "memchr buf b CR (e - b) = None"
    and m: "memchr buf b LF (e - b) = Some p"
  shows "b \<le> p \<and> p < e \<and>
         process_buffer_range c buf b e = Inr (run c (slice buf b (Suc p)), Suc p) \<and>
         state (run c (slice buf b (Suc p))) = escape_lf"
proof -
  from memchr_Some [OF m] be have p: "b \<le> p" "p < e" "buf ! p = LF"
    and no: "\<forall>i. b \<le> i \<and> i < p \<longrightarrow> buf ! i \<noteq> LF" by auto
  from m0 have no0: "\<forall>i<e - b. buf ! (b + i) \<noteq> CR" by (simp add: memchr_None)
  have sn: "slice buf b (Suc p) = slice buf b p @ [LF]"
    using slice_snoc [OF p(1,2) be(2)] p(3) by simp
  have nolf: "LF \<notin> set (slice buf b p)"
  proof
    assume "LF \<in> set (slice buf b p)"
    with slice_set [of p buf LF b] p be obtain i where "b \<le> i" "i < p" "buf ! i = LF" by auto
    with no show False by auto
  qed
  have nocr: "CR \<notin> set (slice buf b p)"
  proof
    assume "CR \<in> set (slice buf b p)"
    with slice_set [of p buf CR b] p be obtain i where i: "b \<le> i" "i < p" "buf ! i = CR" by auto
    with p have "i - b < e - b" by simp
    with no0 have "buf ! (b + (i - b)) \<noteq> CR" by blast
    with i show False by simp
  qed
  from plain_upto_LF [OF nocr nolf] have pl: "plain (slice buf b (Suc p))" by (simp add: sn)
  from run_plain [OF st pl]
  have r: "run c (slice buf b (Suc p)) =
           c\<lparr>state := escape_lf, tty := tty c @ map Data (slice buf b (Suc p))\<rparr>"
    by (simp add: sn after_def)
  have "process_buffer_range c buf b e =
          Inr (c\<lparr>state := escape_lf, tty := tty c @ map Data (slice buf b (Suc p))\<rparr>, Suc p)"
    using st be m m0 by (simp add: process_buffer_range_def console_data_out_def)
  with r p show ?thesis by simp
qed

lemma idle_none:
  assumes st: "state c = escape_idle" and be: "b < e" "e \<le> length buf"
    and m0: "memchr buf b CR (e - b) = None"
    and m1: "memchr buf b LF (e - b) = None"
  shows "process_buffer_range c buf b e = Inr (run c (slice buf b e), e) \<and>
         state (run c (slice buf b e)) = escape_idle"
proof -
  from m0 have no0: "\<forall>i<e - b. buf ! (b + i) \<noteq> CR" by (simp add: memchr_None)
  from m1 have no1: "\<forall>i<e - b. buf ! (b + i) \<noteq> LF" by (simp add: memchr_None)
  have nocr: "CR \<notin> set (slice buf b e)"
  proof
    assume "CR \<in> set (slice buf b e)"
    with slice_set [of e buf CR b] be obtain i where i: "b \<le> i" "i < e" "buf ! i = CR" by auto
    then have "i - b < e - b" by simp
    with no0 have "buf ! (b + (i - b)) \<noteq> CR" by blast
    with i show False by simp
  qed
  have nolf: "LF \<notin> set (slice buf b e)"
  proof
    assume "LF \<in> set (slice buf b e)"
    with slice_set [of e buf LF b] be obtain i where i: "b \<le> i" "i < e" "buf ! i = LF" by auto
    then have "i - b < e - b" by simp
    with no1 have "buf ! (b + (i - b)) \<noteq> LF" by blast
    with i show False by simp
  qed
  have ne: "slice buf b e \<noteq> []" using be by (simp add: slice_Cons)
  then have "last (slice buf b e) \<in> set (slice buf b e)" by simp
  with nocr nolf have "after (slice buf b e) = escape_idle" by (auto simp: after_def)
  with run_plain [OF st plain_no_newline [OF nocr nolf]]
  have r: "run c (slice buf b e) = c\<lparr>state := escape_idle, tty := tty c @ map Data (slice buf b e)\<rparr>"
    by simp
  have "c\<lparr>state := escape_idle\<rparr> = c" using st by (cases c) simp
  then have "c\<lparr>state := escape_idle, tty := tty c @ map Data (slice buf b e)\<rparr> =
             c\<lparr>tty := tty c @ map Data (slice buf b e)\<rparr>" by simp
  moreover have "process_buffer_range c buf b e =
          Inr (c\<lparr>tty := tty c @ map Data (slice buf b e)\<rparr>, e)"
    using st be m0 m1 by (simp add: process_buffer_range_def console_data_out_def)
  ultimately show ?thesis using r st by simp
qed

lemma idle_byte_state: "idle_byte (c\<lparr>state := s\<rparr>) x = idle_byte c x"
  by (simp add: idle_byte_def)

lemma feed_run:
  "chunk_ok (slice buf b e) \<Longrightarrow> e \<le> length buf \<Longrightarrow> b \<le> e \<Longrightarrow>
     feed c buf b e = Some (Inr (run c (slice buf b e), e))"
proof (induction "2 * (e - b) + (if state c = escape_idle then 0 else 1)"
         arbitrary: c b rule: less_induct)
  case less
  note ok = less.prems(1) and len = less.prems(2)
  show ?case
  proof (cases "b < e")
    case False
    with less.prems have "b = e" by simp
    then show ?thesis by (simp add: feed.simps)
  next
    case True
    have hd: "slice buf b e = buf ! b # slice buf (Suc b) e"
      using True len by (rule slice_Cons)
    have ok': "chunk_ok (slice buf p e)" if "b \<le> p" "p \<le> e" for p
    proof -
      from that have "slice buf b e = slice buf b p @ slice buf p e" by (rule slice_split)
      with ok show ?thesis by (auto dest: chunk_ok_append2)
    qed
    have consume: "feed c buf b e = Some (Inr (run c (slice buf b e), e))"
      if r: "process_buffer_range c buf b e = Inr (run c (slice buf b p), p)"
        and p: "b < p" "p \<le> e" for p
    proof -
      have "2 * (e - p) + (if state (run c (slice buf b p)) = escape_idle then 0 else 1)
              < 2 * (e - b) + (if state c = escape_idle then 0 else 1)"
        using p by auto
      from less.hyps [OF this ok' len p(2)] p
      have "feed (run c (slice buf b p)) buf p e =
              Some (Inr (run (run c (slice buf b p)) (slice buf p e), e))" by simp
      moreover have "slice buf b e = slice buf b p @ slice buf p e"
        using p by (intro slice_split) auto
      ultimately show ?thesis using feed_step [OF True r] by (simp add: run_append)
    qed
    have single: "slice buf b (Suc b) = [buf ! b]"
      using slice_Cons [of b "Suc b" buf] True len by simp
    have stay: "feed c buf b e = Some (Inr (run c (slice buf b e), e))"
      if r: "process_buffer_range c buf b e = Inr (c1, b)"
        and s: "state c \<noteq> escape_idle" "state c1 = escape_idle"
        and eq: "step_byte c (buf ! b) = step_byte c1 (buf ! b)" for c1
    proof -
      have "2 * (e - b) + (if state c1 = escape_idle then 0 else 1)
              < 2 * (e - b) + (if state c = escape_idle then 0 else 1)"
        using s by auto
      from less.hyps [OF this ok len] less.prems(3)
      have "feed c1 buf b e = Some (Inr (run c1 (slice buf b e), e))" by simp
      with feed_step [OF True r] eq show ?thesis by (simp add: hd)
    qed
    show ?thesis
    proof (cases "state c")
      case escape_idle
      show ?thesis
      proof (cases "memchr buf b CR (e - b)")
        case (Some p)
        from idle_CR [OF escape_idle True len Some ok] show ?thesis
          by (intro consume [of "Suc p"]) auto
      next
        case None
        show ?thesis
        proof (cases "memchr buf b LF (e - b)")
          case (Some p)
          from idle_LF [OF escape_idle True len None Some] show ?thesis
            by (intro consume [of "Suc p"]) auto
        next
          case None': None
          from idle_none [OF escape_idle True len None None'] True show ?thesis
            by (intro consume [of e]) auto
        qed
      qed
    next
      case escape_cr
      consider (lf) "buf ! b = LF" | (td) "buf ! b = tilde"
        | (other) "buf ! b \<noteq> LF" "buf ! b \<noteq> tilde" by blast
      then show ?thesis
      proof cases
        case lf
        with escape_cr True have "process_buffer_range c buf b e =
            Inr (run c (slice buf b (Suc b)), Suc b)"
          by (simp add: process_buffer_range_def console_data_out_def single step_byte_def)
        with True show ?thesis by (intro consume [of "Suc b"]) auto
      next
        case td
        with escape_cr True have "process_buffer_range c buf b e =
            Inr (run c (slice buf b (Suc b)), Suc b)"
          by (simp add: process_buffer_range_def single step_byte_def)
        with True show ?thesis by (intro consume [of "Suc b"]) auto
      next
        case other
        with escape_cr True have "process_buffer_range c buf b e =
            Inr (c\<lparr>state := escape_idle\<rparr>, b)"
          by (simp add: process_buffer_range_def)
        moreover have "step_byte c (buf ! b) = step_byte (c\<lparr>state := escape_idle\<rparr>) (buf ! b)"
          using other escape_cr by (simp add: step_byte_def idle_byte_state)
        ultimately show ?thesis using escape_cr by (intro stay) auto
      qed
    next
      case escape_lf
      show ?thesis
      proof (cases "buf ! b = tilde")
        case True': True
        with escape_lf True have "process_buffer_range c buf b e =
            Inr (run c (slice buf b (Suc b)), Suc b)"
          by (simp add: process_buffer_range_def single step_byte_def)
        with True show ?thesis by (intro consume [of "Suc b"]) auto
      next
        case False
        with escape_lf True have "process_buffer_range c buf b e =
            Inr (c\<lparr>state := escape_idle\<rparr>, b)"
          by (simp add: process_buffer_range_def)
        moreover have "step_byte c (buf ! b) = step_byte (c\<lparr>state := escape_idle\<rparr>) (buf ! b)"
          using False escape_lf by (simp add: step_byte_def idle_byte_state)
        ultimately show ?thesis using escape_lf by (intro stay) auto
      qed
    next
      case escape_leader
      consider (brk) "buf ! b = brk" | (td) "buf ! b = tilde"
        | (other) "buf ! b \<noteq> brk" "buf ! b \<noteq> tilde" by blast
      then show ?thesis
      proof cases
        case brk
        with escape_leader True have "process_buffer_range c buf b e =
            Inr (run c (slice buf b (Suc b)), Suc b)"
          by (simp add: process_buffer_range_def tcsendbreak_def single step_byte_def)
        with True show ?thesis by (intro consume [of "Suc b"]) auto
      next
        case td
        with escape_leader True have "process_buffer_range c buf b e =
            Inr (c\<lparr>state := escape_idle\<rparr>, b)"
          by (simp add: process_buffer_range_def)
        moreover have "step_byte c (buf ! b) = step_byte (c\<lparr>state := escape_idle\<rparr>) (buf ! b)"
          using td escape_leader by (simp add: step_byte_def idle_byte_state)
        ultimately show ?thesis using escape_leader by (intro stay) auto
      next
        case other
        with escape_leader True have "process_buffer_range c buf b e =
            Inr (c\<lparr>state := escape_idle, tty := tty c @ [Data tilde]\<rparr>, b)"
          by (simp add: process_buffer_range_def console_data_out_def)
        moreover have "step_byte c (buf ! b) =
            step_byte (c\<lparr>state := escape_idle, tty := tty c @ [Data tilde]\<rparr>) (buf ! b)"
          using other escape_leader by (simp add: step_byte_def idle_byte_def)
        ultimately show ?thesis using escape_leader by (intro stay) auto
      qed
    qed
  qed
qed

lemma reads_run:
  "chunk_ok (concat chunks) \<Longrightarrow> reads c chunks = Some (Inr (run c (concat chunks)))"
proof (induction chunks arbitrary: c)
  case Nil
  then show ?case by simp
next
  case (Cons x xs)
  from Cons.prems have ok: "chunk_ok x" "chunk_ok (concat xs)"
    by (auto dest: chunk_ok_append1 chunk_ok_append2)
  from feed_run [of x 0 "length x" c] ok(1)
  have "feed c x 0 (length x) = Some (Inr (run c x, length x))" by simp
  with Cons.IH [OF ok(2)] show ?case by (simp add: run_append)
qed

text \<open>
  The condition on the chunk is needed. With a carriage return later in the same read,
  the idle scan finds it first and forwards everything before it, a line feed and its
  escape included: \<^verbatim>\<open>\n~B\r\<close> in one read raises no break, read as \<^verbatim>\<open>\n~B\<close> and
  \<^verbatim>\<open>\r\<close> it does.
\<close>

lemma late_carriage_return:
  "reads idle_console [[LF, tilde, brk, CR]] =
     Some (Inr \<lparr>state = escape_cr, tty = [Data LF, Data tilde, Data brk, Data CR]\<rparr>)"
  "reads idle_console [[LF, tilde, brk], [CR]] =
     Some (Inr \<lparr>state = escape_cr, tty = [Data LF, Break, Data CR]\<rparr>)"
  by code_simp+

subsection \<open>Inputs without an escape, and the two escapes\<close>

lemma plain_iff: "plain zs \<longleftrightarrow> \<not> has_escape zs \<and> \<not> ends_in_leader zs"
  by (induction zs rule: has_escape.induct) auto

lemma plain_chunk_ok: "plain xs \<Longrightarrow> chunk_ok xs"
proof (induction xs)
  case Nil
  then show ?case by simp
next
  case (Cons x xs)
  then show ?case by (cases xs) auto
qed

lemma chunk_ok_no_CR: "CR \<notin> set xs \<Longrightarrow> chunk_ok xs"
proof (induction xs)
  case Nil
  then show ?case by simp
next
  case (Cons x xs)
  then have "CR \<notin> set (drop 1 xs)" by (auto dest: in_set_dropD)
  with Cons show ?case by simp
qed

lemma chunk_ok_no_LF_prefix: "LF \<notin> set p \<Longrightarrow> chunk_ok ys \<Longrightarrow> chunk_ok (p @ ys)"
  by (induction p) auto

lemma after_no_newline: "CR \<notin> set xs \<Longrightarrow> LF \<notin> set xs \<Longrightarrow> after xs = escape_idle"
proof (cases "xs = []")
  case True
  then show ?thesis by (simp add: after_def)
next
  case False
  assume "CR \<notin> set xs" "LF \<notin> set xs"
  moreover from False have "last xs \<in> set xs" by simp
  ultimately show ?thesis by (auto simp: after_def)
qed

lemma run_no_newline:
  assumes "state c = escape_idle" "CR \<notin> set xs" "LF \<notin> set xs"
  shows "run c xs = c\<lparr>tty := tty c @ map Data xs\<rparr>"
proof -
  have "c\<lparr>state := escape_idle\<rparr> = c" using assms(1) by (cases c) simp
  then have "c\<lparr>state := escape_idle, tty := tty c @ map Data xs\<rparr> = c\<lparr>tty := tty c @ map Data xs\<rparr>"
    by simp
  with run_plain [OF assms(1) plain_no_newline [OF assms(2,3)]] after_no_newline [OF assms(2,3)]
  show ?thesis by simp
qed

lemma run_newline:
  assumes "state c = escape_idle" "nl = [CR] \<or> nl = [LF] \<or> nl = [CR, LF]"
  shows "run c nl = c\<lparr>state := (if nl = [CR] then escape_cr else escape_lf),
                        tty := tty c @ map Data nl\<rparr>"
proof -
  from assms(2) have "plain nl" by auto
  from run_plain [OF assms(1) this] assms(2) show ?thesis by (auto simp: after_def)
qed

lemma run_escape:
  assumes st: "state c = escape_idle"
    and nl: "nl = [CR] \<or> nl = [LF] \<or> nl = [CR, LF]"
    and p: "CR \<notin> set p" "LF \<notin> set p" and s: "CR \<notin> set s" "LF \<notin> set s"
  shows "run c (p @ nl @ [tilde, brk] @ s) = c\<lparr>tty := tty c @ map Data (p @ nl) @ Break # map Data s\<rparr>"
    and "run c (p @ nl @ [tilde, tilde] @ s) = c\<lparr>tty := tty c @ map Data (p @ nl @ [tilde] @ s)\<rparr>"
proof -
  let ?c1 = "c\<lparr>tty := tty c @ map Data p\<rparr>"
  have 1: "run c p = ?c1" using st p by (rule run_no_newline)
  have st1: "state ?c1 = escape_idle" using st by simp
  let ?c2 = "?c1\<lparr>state := (if nl = [CR] then escape_cr else escape_lf), tty := tty ?c1 @ map Data nl\<rparr>"
  have 2: "run ?c1 nl = ?c2" using st1 nl by (rule run_newline)
  have st2: "state ?c2 = escape_cr \<or> state ?c2 = escape_lf" by simp
  let ?c3 = "?c2\<lparr>state := escape_idle, tty := tty ?c2 @ [Break]\<rparr>"
  have 3: "run ?c2 [tilde, brk] = ?c3"
    using st2 by (auto simp: step_byte_def)
  let ?c4 = "?c2\<lparr>state := escape_idle, tty := tty ?c2 @ [Data tilde]\<rparr>"
  have 4: "run ?c2 [tilde, tilde] = ?c4"
    using st2 by (auto simp: step_byte_def idle_byte_def)
  have "run ?c3 s = ?c3\<lparr>tty := tty ?c3 @ map Data s\<rparr>" using _ s by (rule run_no_newline) simp
  moreover have "c\<lparr>state := escape_idle\<rparr> = c" using st by (cases c) simp
  ultimately show "run c (p @ nl @ [tilde, brk] @ s) = c\<lparr>tty := tty c @ map Data (p @ nl) @ Break # map Data s\<rparr>"
    unfolding run_append 1 2 3 by (cases c) simp
  have "run ?c4 s = ?c4\<lparr>tty := tty ?c4 @ map Data s\<rparr>" using _ s by (rule run_no_newline) simp
  moreover have "c\<lparr>state := escape_idle\<rparr> = c" using st by (cases c) simp
  ultimately show "run c (p @ nl @ [tilde, tilde] @ s) = c\<lparr>tty := tty c @ map Data (p @ nl @ [tilde] @ s)\<rparr>"
    unfolding run_append 1 2 4 by (cases c) simp
qed

lemma chunk_ok_escape:
  assumes nl: "nl = [CR] \<or> nl = [LF] \<or> nl = [CR, LF]"
    and p: "LF \<notin> set p" and s: "CR \<notin> set s" and x: "x \<noteq> CR"
  shows "chunk_ok (p @ nl @ [tilde, x] @ s)"
proof -
  have "chunk_ok ([tilde, x] @ s)" using s x by (intro chunk_ok_no_CR) auto
  with nl s x have "chunk_ok (nl @ [tilde, x] @ s)" by auto
  with p show ?thesis by (rule chunk_ok_no_LF_prefix)
qed

text \<open>
  C2, amended. From the idle state, an input in which no newline is directly followed by
  the leader (it holds no escape sequence and does not stop after a newline and its
  leader) reaches the output sink byte for byte and in order, with no break signal,
  whatever the split of the input into reads.
\<close>

theorem plain_input_forwarded:
  assumes "\<not> has_escape zs" "\<not> ends_in_leader zs" "concat chunks = zs"
  shows "\<exists>c. reads idle_console chunks = Some (Inr c) \<and> tty c = map Data zs \<and>
           sink (tty c) = zs \<and> breaks (tty c) = 0"
proof -
  from assms(1,2) have pl: "plain zs" by (simp add: plain_iff)
  then have "chunk_ok (concat chunks)" using assms(3) by (simp add: plain_chunk_ok)
  then have "reads idle_console chunks = Some (Inr (run idle_console zs))"
    using assms(3) by (simp add: reads_run)
  moreover have "tty (run idle_console zs) = map Data zs"
    using run_plain [OF _ pl, of idle_console] by (simp add: idle_console_def)
  moreover have "sink (map Data xs) = xs" "breaks (map Data xs) = 0" for xs
    by (induction xs) auto
  ultimately show ?thesis by simp
qed

section \<open>Escape sequences and chunking\<close>

lemma sink_append: "sink (xs @ ys) = sink xs @ sink ys"
  by (induction xs rule: sink.induct) auto

lemma breaks_append: "breaks (xs @ ys) = breaks xs + breaks ys"
  by (induction xs rule: breaks.induct) auto

lemma sink_Data: "sink (map Data xs) = xs"
  by (induction xs) auto

lemma breaks_Data: "breaks (map Data xs) = 0"
  by (induction xs) auto

text \<open>The input \<^verbatim>\<open>hi\nx\<close>, read as \<^verbatim>\<open>h\<close> and \<^verbatim>\<open>i\nx\<close>.\<close>

theorem plain_input_forwarded_witness:
  "\<not> has_escape [104, 105, LF, 120] \<and> \<not> ends_in_leader [104, 105, LF, 120] \<and>
   concat [[104], [105, LF, 120]] = [104, 105, LF, 120] \<and>
   reads idle_console [[104], [105, LF, 120]] =
     Some (Inr \<lparr>state = escape_idle, tty = [Data 104, Data 105, Data LF, Data 120]\<rparr>)"
proof -
  have h: "\<not> has_escape [104, 105, LF, 120]" "\<not> ends_in_leader [104, 105, LF, 120]"
    "concat [[104], [105, LF, 120]] = [104, 105, LF, 120]"
    by (simp_all add: CR_def LF_def tilde_def)
  have "reads idle_console [[104], [105, LF, 120]] =
     Some (Inr \<lparr>state = escape_idle, tty = [Data 104, Data 105, Data LF, Data 120]\<rparr>)"
    by code_simp
  with h plain_input_forwarded [OF h] show ?thesis by simp
qed

text \<open>
  C2 as stated fails: the input \<^verbatim>\<open>\n~\<close> holds no escape sequence (no discriminator
  follows the leader), yet the leader is held back and only the newline reaches the sink.
\<close>

theorem unfinished_escape_counterexample:
  "\<not> has_escape [LF, tilde] \<and>
   reads idle_console [[LF, tilde]] = Some (Inr \<lparr>state = escape_leader, tty = [Data LF]\<rparr>) \<and>
   sink [Data LF] \<noteq> [LF, tilde]"
  by code_simp

text \<open>
  C4, amended. From the idle state, a newline (\<^verbatim>\<open>\r\<close>, \<^verbatim>\<open>\n\<close> or \<^verbatim>\<open>\r\n\<close>) followed
  by \<^verbatim>\<open>~B\<close>, between bytes that hold no newline, raises exactly one break signal; the
  newline itself is forwarded to the sink and the two bytes \<^verbatim>\<open>~B\<close> contribute nothing,
  whatever the split into reads. The bytes before the escape reach the line before the
  break and the bytes after it after the break.
\<close>

theorem break_escape:
  assumes "nl = [CR] \<or> nl = [LF] \<or> nl = [CR, LF]"
    and "CR \<notin> set p" "LF \<notin> set p" "CR \<notin> set s" "LF \<notin> set s"
    and "concat chunks = p @ nl @ [tilde, brk] @ s"
  shows "\<exists>c. reads idle_console chunks = Some (Inr c) \<and>
           tty c = map Data (p @ nl) @ Break # map Data s \<and>
           breaks (tty c) = 1 \<and> sink (tty c) = p @ nl @ s"
proof -
  have "chunk_ok (p @ nl @ [tilde, brk] @ s)"
    using assms(1,3,4) by (intro chunk_ok_escape) auto
  then have "reads idle_console chunks = Some (Inr (run idle_console (p @ nl @ [tilde, brk] @ s)))"
    using reads_run [of chunks idle_console] by (simp only: assms(6))
  moreover have "tty (run idle_console (p @ nl @ [tilde, brk] @ s)) =
      map Data (p @ nl) @ Break # map Data s"
    using run_escape(1) [OF _ assms(1-5), of idle_console] by (simp add: idle_console_def)
  moreover have "breaks (map Data (p @ nl) @ Break # map Data s) = 1"
    by (simp only: breaks_append breaks_Data breaks.simps)
  moreover have "sink (map Data (p @ nl) @ Break # map Data s) = p @ nl @ s"
    by (simp only: sink_append sink_Data sink.simps append_assoc)
  ultimately show ?thesis by simp
qed

text \<open>The input \<^verbatim>\<open>\r\n~B\<close> in one read.\<close>

theorem break_escape_witness:
  "concat [[CR, LF, tilde, brk]] = [] @ [CR, LF] @ [tilde, brk] @ [] \<and>
   reads idle_console [[CR, LF, tilde, brk]] =
     Some (Inr \<lparr>state = escape_idle, tty = [Data CR, Data LF, Break]\<rparr>) \<and>
   breaks [Data CR, Data LF, Break] = 1 \<and> sink [Data CR, Data LF, Break] = [CR, LF]"
proof -
  have h: "[CR, LF] = [CR] \<or> [CR, LF] = [LF] \<or> [CR, LF] = [CR, LF]"
    "CR \<notin> set []" "LF \<notin> set []" "CR \<notin> set []" "LF \<notin> set []"
    "concat [[CR, LF, tilde, brk]] = [] @ [CR, LF] @ [tilde, brk] @ []"
    by simp_all
  have "reads idle_console [[CR, LF, tilde, brk]] =
     Some (Inr \<lparr>state = escape_idle, tty = [Data CR, Data LF, Break]\<rparr>)"
    by code_simp
  with h break_escape [OF h] show ?thesis by simp
qed

text \<open>
  C4 as stated fails: on the input \<^verbatim>\<open>\r\n~B\<close> the sink receives the two newline bytes,
  not zero bytes.
\<close>

theorem break_escape_counterexample:
  "reads idle_console [[CR, LF, tilde, brk]] =
     Some (Inr \<lparr>state = escape_idle, tty = [Data CR, Data LF, Break]\<rparr>) \<and>
   sink [Data CR, Data LF, Break] = [CR, LF] \<and> length (sink [Data CR, Data LF, Break]) \<noteq> 0"
  by code_simp

text \<open>
  The escape for a literal tilde where no other newline is near: from the idle state, a
  newline followed by \<^verbatim>\<open>~~\<close>, between bytes that hold no newline, forwards the newline
  and then exactly one tilde, for every split of the input into reads; in particular
  \<^verbatim>\<open>\n~~\<close> yields the newline and one tilde, and the reads \<^verbatim>\<open>abc\r\<close>, \<^verbatim>\<open>~\<close>,
  \<^verbatim>\<open>~def\<close> yield \<^verbatim>\<open>abc\r~def\<close>.
\<close>

lemma tilde_escape:
  assumes "nl = [CR] \<or> nl = [LF] \<or> nl = [CR, LF]"
    and "CR \<notin> set p" "LF \<notin> set p" "CR \<notin> set s" "LF \<notin> set s"
    and "concat chunks = p @ nl @ [tilde, tilde] @ s"
  shows "\<exists>c. reads idle_console chunks = Some (Inr c) \<and>
           tty c = map Data (p @ nl @ [tilde] @ s) \<and>
           sink (tty c) = p @ nl @ [tilde] @ s"
proof -
  have "chunk_ok (p @ nl @ [tilde, tilde] @ s)"
    using assms(1,3,4) by (intro chunk_ok_escape) auto
  then have "reads idle_console chunks = Some (Inr (run idle_console (p @ nl @ [tilde, tilde] @ s)))"
    using reads_run [of chunks idle_console] by (simp only: assms(6))
  moreover have "tty (run idle_console (p @ nl @ [tilde, tilde] @ s)) =
      map Data (p @ nl @ [tilde] @ s)"
    using run_escape(2) [OF _ assms(1-5), of idle_console] by (simp add: idle_console_def)
  ultimately show ?thesis by (simp add: sink_Data del: map_append)
qed

text \<open>The reads \<^verbatim>\<open>abc\r\<close>, \<^verbatim>\<open>~\<close>, \<^verbatim>\<open>~def\<close>, and \<^verbatim>\<open>\n~~\<close> read as \<^verbatim>\<open>\n~\<close> and \<^verbatim>\<open>~\<close>.\<close>

lemma tilde_escape_examples:
  "concat [[97, 98, 99, CR], [tilde], [tilde, 100, 101, 102]] =
     [97, 98, 99] @ [CR] @ [tilde, tilde] @ [100, 101, 102] \<and>
   reads idle_console [[97, 98, 99, CR], [tilde], [tilde, 100, 101, 102]] =
     Some (Inr \<lparr>state = escape_idle,
       tty = map Data [97, 98, 99, CR, tilde, 100, 101, 102]\<rparr>) \<and>
   reads idle_console [[LF, tilde], [tilde]] =
     Some (Inr \<lparr>state = escape_idle, tty = [Data LF, Data tilde]\<rparr>)"
proof -
  have h: "[CR] = [CR] \<or> [CR] = [LF] \<or> [CR] = [CR, LF]"
    "CR \<notin> set [97, 98, 99]" "LF \<notin> set [97, 98, 99]"
    "CR \<notin> set [100, 101, 102]" "LF \<notin> set [100, 101, 102]"
    "concat [[97, 98, 99, CR], [tilde], [tilde, 100, 101, 102]] =
     [97, 98, 99] @ [CR] @ [tilde, tilde] @ [100, 101, 102]"
    by (simp_all add: CR_def LF_def)
  have "reads idle_console [[97, 98, 99, CR], [tilde], [tilde, 100, 101, 102]] =
     Some (Inr \<lparr>state = escape_idle,
       tty = map Data [97, 98, 99, CR, tilde, 100, 101, 102]\<rparr>)"
    "reads idle_console [[LF, tilde], [tilde]] =
     Some (Inr \<lparr>state = escape_idle, tty = [Data LF, Data tilde]\<rparr>)"
    by code_simp+
  with h tilde_escape [OF h] show ?thesis by simp
qed

text \<open>
  C5 fails on the code where a carriage return follows in the same read as \<^verbatim>\<open>\n~~\<close>.
  The idle state looks for the first \<^verbatim>\<open>\r\<close> of the whole read before it looks for
  \<^verbatim>\<open>\n\<close>, and forwards everything up to that \<^verbatim>\<open>\r\<close> as it is: the read
  \<^verbatim>\<open>\n~~\r\<close> puts both tildes on the line. The same four bytes read as \<^verbatim>\<open>\n~~\<close> and
  then \<^verbatim>\<open>\r\<close> put one tilde there, so what reaches the sink depends on the split.
\<close>

theorem tilde_escape_missed_before_carriage_return:
  "reads idle_console [[LF, tilde, tilde, CR]] =
     Some (Inr \<lparr>state = escape_cr, tty = [Data LF, Data tilde, Data tilde, Data CR]\<rparr>) \<and>
   sink [Data LF, Data tilde, Data tilde, Data CR] = [LF, tilde, tilde, CR] \<and>
   reads idle_console [[LF, tilde, tilde], [CR]] =
     Some (Inr \<lparr>state = escape_cr, tty = [Data LF, Data tilde, Data CR]\<rparr>) \<and>
   sink [Data LF, Data tilde, Data CR] = [LF, tilde, CR]"
  by code_simp

section \<open>Sending and draining\<close>

subsection \<open>Sends that are not interrupted\<close>

lemma send_cases:
  assumes "uninterrupted s"
  obtains
    (gone) "script s = []" "send s data = (s, Inl EPIPE)"
  | (fails) e rest where "script s = Fails e # rest" "e \<noteq> EINTR"
      "send s data = (s\<lparr>script := rest\<rparr>, Inl e)" "uninterrupted (s\<lparr>script := rest\<rparr>)"
  | (takes) k rest where "script s = Takes k # rest"
      "send s data = (s\<lparr>wire := wire s @ take (min k (length data)) data, script := rest\<rparr>,
         Inr (min k (length data)))"
      "uninterrupted (s\<lparr>wire := wire s @ take (min k (length data)) data, script := rest\<rparr>)"
proof (cases "script s")
  case Nil
  then show ?thesis by (intro gone) auto
next
  case (Cons a rest)
  show ?thesis
  proof (cases a)
    case (Takes k)
    have "take k data = take (min k (length data)) data" by (simp add: min_def)
    with Cons Takes assms show ?thesis by (intro takes [of k rest]) (auto simp: uninterrupted_def)
  next
    case (Fails e)
    with Cons assms show ?thesis by (intro fails [of e rest]) (auto simp: uninterrupted_def)
  qed
qed

lemma unat_advance:
  fixes pos len :: size_t
  assumes "pos \<le> len" "n \<le> unat len - unat pos"
  shows "unat (pos + word_of_nat n) = unat pos + n" "pos + word_of_nat n \<le> len"
    "pos \<le> pos + word_of_nat n"
proof -
  from assms have le: "unat pos + n \<le> unat len" by (simp add: word_le_nat_alt)
  moreover have "unat len < 2 ^ 64" using unsigned_less [of len] by simp
  ultimately have lt: "unat pos + n < 2 ^ 64" by simp
  then have n: "unat (word_of_nat n :: size_t) = n" by (simp add: unat_of_nat)
  with lt show 1: "unat (pos + word_of_nat n) = unat pos + n"
    by (simp add: unat_add_lem [THEN iffD1])
  from 1 le show "pos + word_of_nat n \<le> len" by (simp add: word_le_nat_alt)
  from 1 show "pos \<le> pos + word_of_nat n" by (simp add: word_le_nat_alt)
qed

lemma client_set_blocked_True:
  "blocked (heap (client_set_blocked w p True) p)"
  "blocked (heap w q) \<Longrightarrow> blocked (heap (client_set_blocked w p True) q)"
  by (auto simp: client_set_blocked_def console_poller_set_events_def)

lemma send_loop_plain:
  assumes "uninterrupted (sockets w (fd (heap w p)))" "pos \<le> len" "unat len = length buf"
  shows "sent_ok w p buf len pos (send_loop w p buf len block pos)"
  using assms
proof (induction w p buf len block pos rule: send_loop.induct)
  case (1 w p buf len block pos)
  let ?d = "fd (heap w p)"
  let ?s = "sockets w ?d"
  define data where "data = take (unat (len - pos)) (drop (unat pos) buf)"
  note un = "1.prems"(1) and le = "1.prems"(2) and lb = "1.prems"(3)
  note step = send_loop.simps [of w p buf len block pos, folded data_def]
  show ?case
  proof (cases "pos < len")
    case False
    with le have "pos = len" by simp
    with un show ?thesis by (subst send_loop.simps) (simp add: sent_ok_def)
  next
    case True
    have ld: "length data = unat len - unat pos"
      using le lb by (simp add: unat_sub data_def)
    from un show ?thesis
    proof (cases rule: send_cases [where data = data])
      case gone
      with un True show ?thesis
        by (subst step) (simp add: sent_ok_def Let_def del: send.simps)
    next
      case (fails e rest)
      let ?w = "w\<lparr>sockets := (sockets w)(?d := ?s\<lparr>script := rest\<rparr>)\<rparr>"
      show ?thesis
      proof (cases "\<not> block \<and> (e = EAGAIN \<or> e = EWOULDBLOCK)")
        case True': True
        have "blocked (heap (client_set_blocked ?w p True) p)"
          by (rule client_set_blocked_True)
        with True True' fails le show ?thesis
          apply (subst step)
          apply (simp add: sent_ok_def Let_def client_set_blocked_frame del: send.simps)
          done
      next
        case False
        with True fails show ?thesis
          apply (subst step)
          apply (auto simp: sent_ok_def Let_def simp del: send.simps)
          done
      qed
    next
      case (takes k rest)
      define n where "n = min k (length data)"
      let ?s1 = "?s\<lparr>wire := wire ?s @ take n data, script := rest\<rparr>"
      let ?w = "w\<lparr>sockets := (sockets w)(?d := ?s1)\<rparr>"
      note tk = takes(2,3) [folded n_def]
      show ?thesis
      proof (cases "n = 0")
        case True': True
        with True tk show ?thesis
          apply (subst step)
          apply (simp add: sent_ok_def Let_def del: send.simps)
          done
      next
        case False
        have nle: "n \<le> unat len - unat pos" using ld by (simp add: n_def)
        note adv = unat_advance [OF le nle]
        have "sent_ok ?w p buf len (pos + word_of_nat n)
                (send_loop ?w p buf len block (pos + word_of_nat n))"
          using "1.IH"(2) [OF True tk(1) [symmetric, unfolded data_def] refl refl False,
              folded data_def] tk(2) adv(2) lb
          by simp
        moreover have "send_loop w p buf len block pos =
            send_loop ?w p buf len block (pos + word_of_nat n)"
          using True tk(1) False
          by (subst step) (simp add: Let_def del: send.simps)
        moreover have "wire ?s @ take n data @
              take (unat r - unat (pos + word_of_nat n)) (drop (unat (pos + word_of_nat n)) buf) =
            wire ?s @ take (unat r - unat pos) (drop (unat pos) buf)"
          if "pos + word_of_nat n \<le> r" "r \<le> len" for r
        proof -
          from that adv have r: "unat pos + n \<le> unat r" "unat r \<le> unat len"
            by (simp_all add: word_le_nat_alt)
          have "take n data = take n (drop (unat pos) buf)"
            using nle le by (simp add: unat_sub min_def data_def)
          moreover have "unat r - unat pos = n + (unat r - (unat pos + n))" using r by simp
          then have "take (unat r - unat pos) (drop (unat pos) buf) =
              take n (drop (unat pos) buf) @
              take (unat r - (unat pos + n)) (drop n (drop (unat pos) buf))"
            by (simp only: take_add)
          ultimately show ?thesis by (simp add: adv(1) add.commute)
        qed
        moreover have "pos \<le> r" if "pos + word_of_nat n \<le> r" for r
          using adv(3) that by simp
        ultimately show ?thesis
          by (auto simp: sent_ok_def split: prod.splits)
      qed
    qed
  qed
qed

lemma peek_empty:
  "ringbuffer_dequeue_peek r off = [] \<longleftrightarrow> length (rb_data r) \<le> off"
  by (auto simp: ringbuffer_dequeue_peek_def ringbuffer_len_def)

lemma peek_prefix:
  "ringbuffer_dequeue_peek r off =
     take (length (ringbuffer_dequeue_peek r off)) (drop off (rb_data r))"
  by (auto simp: ringbuffer_dequeue_peek_def ringbuffer_len_def min_def)

lemma peek_length:
  "length (ringbuffer_dequeue_peek r off) \<le> length (rb_data r) - off"
  by (auto simp: ringbuffer_dequeue_peek_def ringbuffer_len_def)

lemma send_all_plain:
  assumes "uninterrupted (sockets w (fd (heap w p)))" "unat len = length buf"
    "length buf < 2 ^ 63"
  shows "sent_ok w p buf len 0 (send_all w p buf len block)"
proof -
  from assms(2,3) have "unat len \<le> unat SSIZE_MAX" by (simp add: SSIZE_MAX_def)
  then have "\<not> SSIZE_MAX < len" by (simp add: word_less_nat_alt)
  with send_loop_plain [OF assms(1) _ assms(2), of 0 block] show ?thesis
    by (simp add: send_all_def)
qed

lemma small_nonneg:
  fixes r :: ssize_t
  assumes "unat r < 2 ^ 63"
  shows "sint r = int (unat r)"
proof -
  have u: "uint r = int (unat r)" by simp
  from assms have "int (unat r) < 2 ^ 63" by (metis of_nat_less_numeral_power_cancel_iff)
  with u have lt: "uint r < 2 ^ 63" by simp
  have "sint r = signed_take_bit 63 (uint r)" by (simp add: sint_uint)
  also have "\<dots> = uint r"
  proof (rule signed_take_bit_int_eq_self)
    have "0 \<le> uint r" by simp
    moreover have "- (2 ^ 63) \<le> (0 :: int)" by simp
    ultimately show "- (2 ^ 63) \<le> uint r" by (rule order_trans [rotated])
    show "uint r < 2 ^ 63" by (rule lt)
  qed
  finally show ?thesis by simp
qed

lemma minus_one_negative: "(- 1 :: ssize_t) <s 0" "(- 1 :: ssize_t) \<le>s 0"
  by (simp_all add: word_sless_alt word_sle_eq)

lemma drain_loop_plain:
  assumes "uninterrupted (sockets w (fd (heap w p)))"
    "length (rb_data (rings w (rbc (heap w p)))) < 2 ^ 63"
    "unat total_len \<le> length (rb_data (rings w (rbc (heap w p))))"
  shows "drain_ok w p force_len total_len (drain_loop w p force_len block total_len wlen)"
  using assms
proof (induction w p force_len block total_len wlen rule: drain_loop.induct)
  case (1 w p force_len block total_len wlen)
  let ?d = "fd (heap w p)"
  define data where "data = rb_data (rings w (rbc (heap w p)))"
  define buf where "buf = ringbuffer_dequeue_peek (rings w (rbc (heap w p))) (unat total_len)"
  define len :: size_t where "len = word_of_nat (length buf)"
  note un = "1.prems"(1) and small = "1.prems"(2) [folded data_def]
    and tot = "1.prems"(3) [folded data_def]
  have step: "drain_loop w p force_len block total_len wlen =
      (if len = 0 then (w, total_len, wlen)
       else (case send_all w p buf len block of
               (wlen', w') \<Rightarrow>
                 if wlen' \<le>s 0 then (w', total_len, wlen')
                 else if force_len \<noteq> 0 \<and> force_len \<le> total_len + wlen'
                 then (w', total_len + wlen', wlen')
                 else drain_loop w' p force_len block (total_len + wlen') wlen'))"
    by (subst drain_loop.simps) (simp add: Let_def buf_def len_def)
  have bl: "length buf \<le> length data - unat total_len"
    unfolding buf_def data_def by (rule peek_length)
  with small have bs: "length buf < 2 ^ 63" by simp
  then have ul: "unat len = length buf" by (simp add: len_def unat_of_nat)
  have bp: "buf = take (length buf) (drop (unat total_len) data)"
    unfolding buf_def data_def by (rule peek_prefix)
  show ?case
  proof (cases "len = 0")
    case True
    with ul have "buf = []" by simp
    then have "length data \<le> unat total_len" by (simp add: buf_def data_def peek_empty)
    with tot True un show ?thesis
      by (subst step) (simp add: drain_ok_def Let_def data_def)
  next
    case False
    obtain r w' where sa: "send_all w p buf len block = (r, w')" by fastforce
    from send_all_plain [OF un ul bs, of block] sa
    have ok: "sent_ok w p buf len 0 (r, w')" by simp
    then have un': "uninterrupted (sockets w' ?d)" by (simp add: sent_ok_def)
    from sa have fr: "rings w' = rings w" "rbc (heap w' p) = rbc (heap w p)"
      "fd (heap w' p) = fd (heap w p)"
      using send_all_frame(1-3) [of w p buf len block p] send_all_frame(4) [of w p buf len block]
      by simp_all
    show ?thesis
    proof (cases "r = - 1")
      case True
      with False sa un' fr show ?thesis
        by (subst step) (simp add: drain_ok_def Let_def minus_one_negative)
    next
      case nf: False
      with ok have r: "r \<le> len"
        and wr: "wire (sockets w' ?d) = wire (sockets w ?d) @ take (unat r) buf"
        and bk: "r < len \<longrightarrow> blocked (heap w' p)"
        by (simp_all add: sent_ok_def)
      from r ul have ur: "unat r \<le> length buf" by (simp add: word_le_nat_alt)
      with bs have "sint r = int (unat r)" by (intro small_nonneg) simp
      then have nn: "0 \<le> sint r" by simp
      have z: "sint r = 0 \<longleftrightarrow> r = 0" by (rule signed_eq_0_iff)
      have pos: "r \<le>s 0 \<longleftrightarrow> r = 0" "\<not> r <s 0"
        using nn z by (auto simp only: word_sle_eq word_sless_alt sint_0)
      have wr': "wire (sockets w' ?d) = wire (sockets w ?d) @ take (unat r) (drop (unat total_len) data)"
        using wr ur by (subst (asm) bp) (simp add: min_def)
      show ?thesis
      proof (cases "r = 0")
        case True
        with False bk have "blocked (heap w' p)" by (simp add: word_neq_0_conv)
        with True False sa un' fr wr' tot show ?thesis
          by (subst step) (simp add: drain_ok_def Let_def pos data_def)
      next
        case rpos: False
        have add: "unat (total_len + r) = unat total_len + unat r"
        proof -
          have "unat total_len + unat r \<le> length data" using ur bl tot by simp
          with small have "unat total_len + unat r < 2 ^ 64" by simp
          then show ?thesis by (simp add: unat_add_lem [THEN iffD1])
        qed
        have tl: "unat (total_len + r) \<le> length data" using add ur bl tot by simp
        have tle: "total_len \<le> total_len + r" using add by (simp add: word_le_nat_alt)
        have wr2: "wire (sockets w' ?d) = wire (sockets w ?d) @
            take (unat (total_len + r) - unat total_len) (drop (unat total_len) data)"
          using wr' add by simp
        show ?thesis
        proof (cases "force_len \<noteq> 0 \<and> force_len \<le> total_len + r")
          case True
          with False sa rpos un' fr tl tle wr2 show ?thesis
            by (subst step) (simp add: drain_ok_def Let_def pos data_def)
        next
          case nforce: False
          have rp: "\<not> r \<le>s 0" using rpos pos by simp
          have eq: "drain_loop w p force_len block total_len wlen =
              drain_loop w' p force_len block (total_len + r) r"
            using False sa rp nforce by (subst step) auto
          have "drain_ok w' p force_len (total_len + r)
              (drain_loop w' p force_len block (total_len + r) r)"
            using "1.IH" [OF buf_def len_def False sa [symmetric] rp nforce]
              un' fr small tl
            by (simp add: data_def)
          then obtain w2 t2 l2 where
            res: "drain_loop w' p force_len block (total_len + r) r = (w2, t2, l2)"
            and un2: "uninterrupted (sockets w2 ?d)"
            and fr2: "rings w2 = rings w" "rbc (heap w2 p) = rbc (heap w p)"
              "fd (heap w2 p) = fd (heap w p)"
            and dj: "l2 <s 0 \<or>
              total_len + r \<le> t2 \<and> unat t2 \<le> length data \<and>
              wire (sockets w2 ?d) = wire (sockets w' ?d) @
                take (unat t2 - unat (total_len + r)) (drop (unat (total_len + r)) data) \<and>
              (unat t2 = length data \<or> force_len \<noteq> 0 \<and> force_len \<le> t2 \<or>
               blocked (heap w2 p))"
            using fr by (auto simp: drain_ok_def data_def split: prod.splits)
          show ?thesis
          proof (cases "l2 <s 0")
            case True
            with res un2 fr2 show ?thesis
              unfolding eq by (simp add: drain_ok_def)
          next
            case False
            with dj have t2: "total_len + r \<le> t2" "unat t2 \<le> length data"
              and w2: "wire (sockets w2 ?d) = wire (sockets w' ?d) @
                take (unat t2 - unat (total_len + r)) (drop (unat (total_len + r)) data)"
              and ex: "unat t2 = length data \<or> force_len \<noteq> 0 \<and> force_len \<le> t2 \<or>
               blocked (heap w2 p)"
              by simp_all
            from t2(1) add have u2: "unat total_len + unat r \<le> unat t2"
              by (simp add: word_le_nat_alt)
            then have "unat t2 - unat total_len = unat r + (unat t2 - (unat total_len + unat r))"
              by simp
            then have "take (unat t2 - unat total_len) (drop (unat total_len) data) =
                take (unat r) (drop (unat total_len) data) @
                take (unat t2 - (unat total_len + unat r))
                  (drop (unat r) (drop (unat total_len) data))"
              by (simp only: take_add)
            with w2 wr' add have "wire (sockets w2 ?d) = wire (sockets w ?d) @
                take (unat t2 - unat total_len) (drop (unat total_len) data)"
              by (simp add: add.commute)
            moreover from tle t2(1) have "total_len \<le> t2" by simp
            ultimately show ?thesis
              unfolding eq using res un2 fr2 t2(2) ex
              by (simp add: drain_ok_def data_def)
          qed
        qed
      qed
    qed
  qed
qed

subsection \<open>What a sender that does not wait asks of the socket\<close>

lemma take_advance:
  assumes "a + n \<le> m"
  shows "take n (drop a buf) @ take (m - (a + n)) (drop (a + n) buf) = take (m - a) (drop a buf)"
proof -
  from assms have "m - a = n + (m - (a + n))" by simp
  then have "take (m - a) (drop a buf) =
      take n (drop a buf) @ take (m - (a + n)) (drop n (drop a buf))"
    by (simp only: take_add)
  then show ?thesis by (simp add: add.commute)
qed

lemma small_not_minus_one:
  fixes r :: size_t
  assumes "unat r < 2 ^ 63"
  shows "r \<noteq> - 1"
proof
  assume "r = - 1"
  then have "unat r = 2 ^ 64 - 1" by (simp add: unsigned_minus_1_eq_mask mask_eq_exp_minus_1)
  with assms show False by simp
qed

lemma send_loop_trace:
  assumes "uninterrupted (sockets w (fd (heap w p)))" "pos \<le> len" "unat len = length buf"
    "unat len < 2 ^ 63" "\<not> block"
  shows "sent_trace w p buf len pos (send_loop w p buf len block pos)"
  using assms
proof (induction w p buf len block pos rule: send_loop.induct)
  case (1 w p buf len block pos)
  let ?d = "fd (heap w p)"
  let ?s = "sockets w ?d"
  define data where "data = take (unat (len - pos)) (drop (unat pos) buf)"
  note un = "1.prems"(1) and le = "1.prems"(2) and lb = "1.prems"(3) and sm = "1.prems"(4)
    and nb = "1.prems"(5)
  note step = send_loop.simps [of w p buf len block pos, folded data_def]
  from le sm have "unat pos < 2 ^ 63" by (simp add: word_le_nat_alt)
  then have pm: "pos \<noteq> - 1" by (rule small_not_minus_one)
  show ?case
  proof (cases "pos < len")
    case False
    with le have "pos = len" by simp
    with pm show ?thesis
      by (subst send_loop.simps) (simp add: sent_trace_def)
  next
    case True
    then have pl: "unat pos < unat len" by (simp add: word_less_nat_alt)
    have ld: "length data = unat len - unat pos"
      using le lb by (simp add: unat_sub data_def)
    from un show ?thesis
    proof (cases rule: send_cases [where data = data])
      case gone
      have "sent_trace w p buf len pos (- 1, w\<lparr>sockets := (sockets w)(?d := ?s)\<rparr>)"
        unfolding sent_trace_def using gone(1) pl
        by (auto intro!: exI [of _ "[]"] exI [of _ "unat pos"])
      with gone True nb show ?thesis
        by (subst step) (simp add: Let_def del: send.simps)
    next
      case (fails e rest)
      let ?w = "w\<lparr>sockets := (sockets w)(?d := ?s\<lparr>script := rest\<rparr>)\<rparr>"
      show ?thesis
      proof (cases "e = EAGAIN \<or> e = EWOULDBLOCK")
        case True': True
        have b: "blocked (heap (client_set_blocked ?w p True) p)"
          by (rule client_set_blocked_True)
        have "sent_trace w p buf len pos (pos, client_set_blocked ?w p True)"
          unfolding sent_trace_def using fails(1) True' b pm
          by (auto intro!: exI [of _ "[Fails e]"]
                simp: client_set_blocked_frame would_block_def takes_some_def)
        with True True' fails nb show ?thesis
          by (subst step) (simp add: Let_def del: send.simps)
      next
        case False
        have "sent_trace w p buf len pos (- 1, ?w)"
          unfolding sent_trace_def using fails(1,2) False pl
          by (auto intro!: exI [of _ "[Fails e]"] exI [of _ "unat pos"] simp: send_fails_def)
        with True fails False show ?thesis
          by (subst step) (simp add: Let_def del: send.simps)
      qed
    next
      case (takes k rest)
      define n where "n = min k (length data)"
      let ?s1 = "?s\<lparr>wire := wire ?s @ take n data, script := rest\<rparr>"
      let ?w = "w\<lparr>sockets := (sockets w)(?d := ?s1)\<rparr>"
      note tk = takes(2,3) [folded n_def]
      show ?thesis
      proof (cases "n = 0")
        case True': True
        with ld pl have k0: "k = 0" by (simp add: n_def min_def split: if_splits)
        have "sent_trace w p buf len pos (- 1, ?w)"
          unfolding sent_trace_def using takes(1) k0 True' pl
          by (auto intro!: exI [of _ "[Takes 0]"] exI [of _ "unat pos"] simp: send_fails_def)
        with True tk True' show ?thesis
          by (subst step) (simp add: Let_def del: send.simps)
      next
        case False
        then have kp: "0 < k" by (simp add: n_def)
        have nle: "n \<le> unat len - unat pos" using ld by (simp add: n_def)
        note adv = unat_advance [OF le nle]
        obtain r w' where res: "send_loop ?w p buf len block (pos + word_of_nat n) = (r, w')"
          by fastforce
        have eq: "send_loop w p buf len block pos = (r, w')"
          using True tk(1) False res
          by (subst step) (simp add: Let_def del: send.simps)
        have tr: "sent_trace ?w p buf len (pos + word_of_nat n) (r, w')"
          using "1.IH"(2) [OF True tk(1) [symmetric, unfolded data_def] refl refl False,
              folded data_def] tk(2) adv(2) lb sm nb res
          by simp
        have ok: "sent_ok ?w p buf len (pos + word_of_nat n) (r, w')"
          using send_loop_plain [of ?w p "pos + word_of_nat n" len buf block] tk(2) adv(2) lb res
          by simp
        from tr obtain used where
          sc: "rest = used @ script (sockets w' ?d)"
          and fl: "r = - 1 \<longrightarrow>
             (used \<noteq> [] \<and> send_fails (last used) \<or> script (sockets w' ?d) = []) \<and>
             (\<exists>m. unat pos + n \<le> m \<and> m < unat len \<and>
                wire (sockets w' ?d) =
                  (wire ?s @ take n data) @ take (m - (unat pos + n)) (drop (unat pos + n) buf))"
          and su: "r \<noteq> - 1 \<longrightarrow>
             (\<forall>x \<in> set used. takes_some x \<or> would_block x) \<and>
             (blocked (heap w' p) \<longleftrightarrow> blocked (heap w p) \<or> (\<exists>x \<in> set used. would_block x)) \<and>
             (r < len \<longrightarrow> used \<noteq> [] \<and> would_block (last used)) \<and>
             length (filter takes_some used) \<le> unat r - (unat pos + n)"
          by (auto simp: sent_trace_def adv(1))
        have td: "take n data = take n (drop (unat pos) buf)"
          using nle le by (simp add: unat_sub min_def data_def)
        have sc': "script ?s = (Takes k # used) @ script (sockets w' ?d)"
          using takes(1) sc by simp
        have fl': "r = - 1 \<longrightarrow>
             ((Takes k # used) \<noteq> [] \<and> send_fails (last (Takes k # used)) \<or>
                script (sockets w' ?d) = []) \<and>
             (\<exists>m. unat pos \<le> m \<and> m < unat len \<and>
                wire (sockets w' ?d) = wire ?s @ take (m - unat pos) (drop (unat pos) buf))"
        proof
          assume m1: "r = - 1"
          with fl obtain m where c: "used \<noteq> [] \<and> send_fails (last used) \<or> script (sockets w' ?d) = []"
            and m: "unat pos + n \<le> m" "m < unat len"
            and wr: "wire (sockets w' ?d) =
                  (wire ?s @ take n data) @ take (m - (unat pos + n)) (drop (unat pos + n) buf)"
            by blast
          from wr td take_advance [OF m(1), of buf]
          have "wire (sockets w' ?d) = wire ?s @ take (m - unat pos) (drop (unat pos) buf)"
            by simp
          with m have "\<exists>m. unat pos \<le> m \<and> m < unat len \<and>
                wire (sockets w' ?d) = wire ?s @ take (m - unat pos) (drop (unat pos) buf)"
            by (intro exI [of _ m]) simp
          moreover from c have "(Takes k # used) \<noteq> [] \<and> send_fails (last (Takes k # used)) \<or>
                script (sockets w' ?d) = []" by auto
          ultimately show "((Takes k # used) \<noteq> [] \<and> send_fails (last (Takes k # used)) \<or>
                script (sockets w' ?d) = []) \<and>
             (\<exists>m. unat pos \<le> m \<and> m < unat len \<and>
                wire (sockets w' ?d) = wire ?s @ take (m - unat pos) (drop (unat pos) buf))"
            by simp
        qed
        have su': "r \<noteq> - 1 \<longrightarrow>
             (\<forall>x \<in> set (Takes k # used). takes_some x \<or> would_block x) \<and>
             (blocked (heap w' p) \<longleftrightarrow>
                blocked (heap w p) \<or> (\<exists>x \<in> set (Takes k # used). would_block x)) \<and>
             (r < len \<longrightarrow> (Takes k # used) \<noteq> [] \<and> would_block (last (Takes k # used))) \<and>
             length (filter takes_some (Takes k # used)) \<le> unat r - unat pos"
        proof
          assume nm: "r \<noteq> - 1"
          with ok have "pos + word_of_nat n \<le> r" by (simp add: sent_ok_def)
          then have ge: "unat pos + n \<le> unat r" using adv(1) by (simp add: word_le_nat_alt)
          from su nm have a: "\<forall>x \<in> set used. takes_some x \<or> would_block x"
            and b: "blocked (heap w' p) \<longleftrightarrow> blocked (heap w p) \<or> (\<exists>x \<in> set used. would_block x)"
            and c: "r < len \<longrightarrow> used \<noteq> [] \<and> would_block (last used)"
            and d: "length (filter takes_some used) \<le> unat r - (unat pos + n)"
            by simp_all
          have tkk: "takes_some (Takes k)" "\<not> would_block (Takes k)"
            using kp by (simp_all add: takes_some_def would_block_def)
          from False have "1 \<le> n" by simp
          with d ge have "Suc (length (filter takes_some used)) \<le> unat r - unat pos" by simp
          with a b c tkk show "(\<forall>x \<in> set (Takes k # used). takes_some x \<or> would_block x) \<and>
             (blocked (heap w' p) \<longleftrightarrow>
                blocked (heap w p) \<or> (\<exists>x \<in> set (Takes k # used). would_block x)) \<and>
             (r < len \<longrightarrow> (Takes k # used) \<noteq> [] \<and> would_block (last (Takes k # used))) \<and>
             length (filter takes_some (Takes k # used)) \<le> unat r - unat pos"
            by auto
        qed
        have "sent_trace w p buf len pos (r, w')"
          unfolding sent_trace_def prod.case
          by (rule exI [of _ "Takes k # used"]) (intro conjI sc' fl' su')
        with eq show ?thesis by simp
      qed
    qed
  qed
qed


lemma send_all_trace:
  assumes "uninterrupted (sockets w (fd (heap w p)))" "unat len = length buf"
    "length buf < 2 ^ 63" "\<not> block"
  shows "sent_trace w p buf len 0 (send_all w p buf len block)"
proof -
  from assms(2,3) have "unat len \<le> unat SSIZE_MAX" by (simp add: SSIZE_MAX_def)
  then have "\<not> SSIZE_MAX < len" by (simp add: word_less_nat_alt)
  moreover from assms(2,3) have "unat len < 2 ^ 63" by simp
  ultimately show ?thesis
    using send_loop_trace [OF assms(1) _ assms(2) _ assms(4), of 0]
    by (simp add: send_all_def)
qed

lemma drain_loop_trace:
  assumes "uninterrupted (sockets w (fd (heap w p)))"
    "length (rb_data (rings w (rbc (heap w p)))) < 2 ^ 63"
    "unat total_len \<le> length (rb_data (rings w (rbc (heap w p))))"
    "force_len = 0" "\<not> block" "\<not> wlen <s 0"
  shows "drain_trace w p total_len (drain_loop w p force_len block total_len wlen)"
  using assms
proof (induction w p force_len block total_len wlen rule: drain_loop.induct)
  case (1 w p force_len block total_len wlen)
  let ?d = "fd (heap w p)"
  define data where "data = rb_data (rings w (rbc (heap w p)))"
  define buf where "buf = ringbuffer_dequeue_peek (rings w (rbc (heap w p))) (unat total_len)"
  define len :: size_t where "len = word_of_nat (length buf)"
  note un = "1.prems"(1) and small = "1.prems"(2) [folded data_def]
    and tot = "1.prems"(3) [folded data_def] and nf = "1.prems"(4) and nb = "1.prems"(5)
    and wl = "1.prems"(6)
  have step: "drain_loop w p force_len block total_len wlen =
      (if len = 0 then (w, total_len, wlen)
       else (case send_all w p buf len block of
               (wlen', w') \<Rightarrow>
                 if wlen' \<le>s 0 then (w', total_len, wlen')
                 else if force_len \<noteq> 0 \<and> force_len \<le> total_len + wlen'
                 then (w', total_len + wlen', wlen')
                 else drain_loop w' p force_len block (total_len + wlen') wlen'))"
    by (subst drain_loop.simps) (simp add: Let_def buf_def len_def)
  have bl: "length buf \<le> length data - unat total_len"
    unfolding buf_def data_def by (rule peek_length)
  with small have bs: "length buf < 2 ^ 63" by simp
  then have ul: "unat len = length buf" by (simp add: len_def unat_of_nat)
  have bp: "buf = take (length buf) (drop (unat total_len) data)"
    unfolding buf_def data_def by (rule peek_prefix)
  show ?case
  proof (cases "len = 0")
    case True
    with ul have "buf = []" by simp
    then have "length data \<le> unat total_len" by (simp add: buf_def data_def peek_empty)
    then have "drain_trace w p total_len (w, total_len, wlen)"
      unfolding drain_trace_def prod.case using wl
      by (intro exI [of _ "[]"]) (simp add: data_def)
    with True show ?thesis by (subst step) simp
  next
    case False
    then have lpos: "0 < len" by (simp add: word_neq_0_conv)
    obtain r w' where sa: "send_all w p buf len block = (r, w')" by fastforce
    from send_all_plain [OF un ul bs, of block] sa
    have ok: "sent_ok w p buf len 0 (r, w')" by simp
    from send_all_trace [OF un ul bs nb] sa
    have tr: "sent_trace w p buf len 0 (r, w')" by simp
    from ok have un': "uninterrupted (sockets w' ?d)" by (simp add: sent_ok_def)
    from sa have fr: "rings w' = rings w" "rbc (heap w' p) = rbc (heap w p)"
      "fd (heap w' p) = fd (heap w p)"
      using send_all_frame(1-3) [of w p buf len block p] send_all_frame(4) [of w p buf len block]
      by simp_all
    from tr obtain used where
      sc: "script (sockets w ?d) = used @ script (sockets w' ?d)"
      and fl: "r = - 1 \<longrightarrow>
             (used \<noteq> [] \<and> send_fails (last used) \<or> script (sockets w' ?d) = []) \<and>
             (\<exists>m. m < length buf \<and> wire (sockets w' ?d) = wire (sockets w ?d) @ take m buf)"
      and su: "r \<noteq> - 1 \<longrightarrow>
             (\<forall>x \<in> set used. takes_some x \<or> would_block x) \<and>
             (blocked (heap w' p) \<longleftrightarrow> blocked (heap w p) \<or> (\<exists>x \<in> set used. would_block x)) \<and>
             (r < len \<longrightarrow> used \<noteq> [] \<and> would_block (last used)) \<and>
             length (filter takes_some used) \<le> unat r"
      by (auto simp: sent_trace_def ul)
    show ?thesis
    proof (cases "r = - 1")
      case True
      with fl obtain m where
        c: "used \<noteq> [] \<and> send_fails (last used) \<or> script (sockets w' ?d) = []"
        and m: "m < length buf"
        and wr: "wire (sockets w' ?d) = wire (sockets w ?d) @ take m buf" by blast
      have "take m buf = take m (drop (unat total_len) data)"
        using m by (subst bp) (simp add: min_def)
      with wr have "wire (sockets w' ?d) = wire (sockets w ?d) @
          take ((unat total_len + m) - unat total_len) (drop (unat total_len) data)" by simp
      moreover have "unat total_len + m < length data" using m bl by simp
      ultimately have "\<exists>m. unat total_len \<le> m \<and> m < length data \<and>
          wire (sockets w' ?d) = wire (sockets w ?d) @
            take (m - unat total_len) (drop (unat total_len) data)"
        by (intro exI [of _ "unat total_len + m"]) simp
      with c sc have "drain_trace w p total_len (w', total_len, - 1)"
        unfolding drain_trace_def prod.case
        by (intro exI [of _ used]) (simp add: minus_one_negative data_def)
      with False sa True show ?thesis
        by (subst step) (simp add: minus_one_negative)
    next
      case nm: False
      with ok have r: "r \<le> len"
        and wr: "wire (sockets w' ?d) = wire (sockets w ?d) @ take (unat r) buf"
        by (simp_all add: sent_ok_def)
      from su nm have a: "\<forall>x \<in> set used. takes_some x \<or> would_block x"
        and b: "blocked (heap w' p) \<longleftrightarrow> blocked (heap w p) \<or> (\<exists>x \<in> set used. would_block x)"
        and c: "r < len \<longrightarrow> used \<noteq> [] \<and> would_block (last used)"
        and d: "length (filter takes_some used) \<le> unat r"
        by simp_all
      from r ul have ur: "unat r \<le> length buf" by (simp add: word_le_nat_alt)
      with bs have "sint r = int (unat r)" by (intro small_nonneg) simp
      then have nn: "0 \<le> sint r" by simp
      have z: "sint r = 0 \<longleftrightarrow> r = 0" by (rule signed_eq_0_iff)
      have pos: "r \<le>s 0 \<longleftrightarrow> r = 0" "\<not> r <s 0"
        using nn z by (auto simp only: word_sle_eq word_sless_alt sint_0)
      have wr': "wire (sockets w' ?d) = wire (sockets w ?d) @ take (unat r) (drop (unat total_len) data)"
        using wr ur by (subst (asm) bp) (simp add: min_def)
      show ?thesis
      proof (cases "r = 0")
        case True
        with lpos c have "used \<noteq> [] \<and> would_block (last used)" by simp
        with a b d True sc have "drain_trace w p total_len (w', total_len, 0)"
          unfolding drain_trace_def prod.case
          by (intro exI [of _ used]) (simp add: word_sless_alt)
        with False sa True show ?thesis
          by (subst step) (simp add: pos)
      next
        case rpos: False
        have add: "unat (total_len + r) = unat total_len + unat r"
        proof -
          have "unat total_len + unat r \<le> length data" using ur bl tot by simp
          with small have "unat total_len + unat r < 2 ^ 64" by simp
          then show ?thesis by (simp add: unat_add_lem [THEN iffD1])
        qed
        have tl: "unat (total_len + r) \<le> length data" using add ur bl tot by simp
        have rp: "\<not> r \<le>s 0" using rpos pos by simp
        have nforce: "\<not> (force_len \<noteq> 0 \<and> force_len \<le> total_len + r)" using nf by simp
        have eq: "drain_loop w p force_len block total_len wlen =
            drain_loop w' p force_len block (total_len + r) r"
          using False sa rp nforce by (subst step) auto
        obtain w2 t2 l2 where
          res: "drain_loop w' p force_len block (total_len + r) r = (w2, t2, l2)"
          by (metis prod_cases3)
        have "drain_trace w' p (total_len + r) (drain_loop w' p force_len block (total_len + r) r)"
          using "1.IH" [OF buf_def len_def False sa [symmetric] rp nforce]
            un' fr small tl nf nb pos(2)
          by (simp add: data_def)
        with res fr obtain used2 where
          sc2: "script (sockets w' ?d) = used2 @ script (sockets w2 ?d)"
          and fl2: "l2 <s 0 \<longrightarrow>
             (used2 \<noteq> [] \<and> send_fails (last used2) \<or> script (sockets w2 ?d) = []) \<and>
             (\<exists>m. unat total_len + unat r \<le> m \<and> m < length data \<and>
                wire (sockets w2 ?d) = wire (sockets w' ?d) @
                  take (m - (unat total_len + unat r)) (drop (unat total_len + unat r) data))"
          and su2: "\<not> l2 <s 0 \<longrightarrow>
             (\<forall>x \<in> set used2. takes_some x \<or> would_block x) \<and>
             (blocked (heap w2 p) \<longleftrightarrow> blocked (heap w' p) \<or> (\<exists>x \<in> set used2. would_block x)) \<and>
             (unat t2 < length data \<longrightarrow> used2 \<noteq> [] \<and> would_block (last used2)) \<and>
             length (filter takes_some used2) \<le> unat t2 - (unat total_len + unat r)"
          by (auto simp: drain_trace_def data_def add)
        have "drain_ok w' p force_len (total_len + r) (w2, t2, l2)"
          using drain_loop_plain [of w' p "total_len + r" force_len block r] un' fr small tl res
          by (simp add: data_def)
        then have ge: "\<not> l2 <s 0 \<longrightarrow> unat total_len + unat r \<le> unat t2"
          using add by (auto simp: drain_ok_def word_le_nat_alt)
        have sc': "script (sockets w ?d) = (used @ used2) @ script (sockets w2 ?d)"
          using sc sc2 by simp
        have fl': "l2 <s 0 \<longrightarrow>
             ((used @ used2) \<noteq> [] \<and> send_fails (last (used @ used2)) \<or>
                script (sockets w2 ?d) = []) \<and>
             (\<exists>m. unat total_len \<le> m \<and> m < length data \<and>
                wire (sockets w2 ?d) = wire (sockets w ?d) @
                  take (m - unat total_len) (drop (unat total_len) data))"
        proof
          assume "l2 <s 0"
          with fl2 obtain m where
            c2: "used2 \<noteq> [] \<and> send_fails (last used2) \<or> script (sockets w2 ?d) = []"
            and m: "unat total_len + unat r \<le> m" "m < length data"
            and w2: "wire (sockets w2 ?d) = wire (sockets w' ?d) @
                  take (m - (unat total_len + unat r)) (drop (unat total_len + unat r) data)"
            by blast
          from w2 wr' take_advance [OF m(1), of data]
          have "wire (sockets w2 ?d) = wire (sockets w ?d) @
              take (m - unat total_len) (drop (unat total_len) data)" by simp
          with m have "\<exists>m. unat total_len \<le> m \<and> m < length data \<and>
                wire (sockets w2 ?d) = wire (sockets w ?d) @
                  take (m - unat total_len) (drop (unat total_len) data)"
            by (intro exI [of _ m]) simp
          moreover from c2 have "(used @ used2) \<noteq> [] \<and> send_fails (last (used @ used2)) \<or>
                script (sockets w2 ?d) = []" by auto
          ultimately show "((used @ used2) \<noteq> [] \<and> send_fails (last (used @ used2)) \<or>
                script (sockets w2 ?d) = []) \<and>
             (\<exists>m. unat total_len \<le> m \<and> m < length data \<and>
                wire (sockets w2 ?d) = wire (sockets w ?d) @
                  take (m - unat total_len) (drop (unat total_len) data))" by simp
        qed
        have su': "\<not> l2 <s 0 \<longrightarrow>
             (\<forall>x \<in> set (used @ used2). takes_some x \<or> would_block x) \<and>
             (blocked (heap w2 p) \<longleftrightarrow>
                blocked (heap w p) \<or> (\<exists>x \<in> set (used @ used2). would_block x)) \<and>
             (unat t2 < length data \<longrightarrow>
                (used @ used2) \<noteq> [] \<and> would_block (last (used @ used2))) \<and>
             length (filter takes_some (used @ used2)) \<le> unat t2 - unat total_len"
        proof
          assume n2: "\<not> l2 <s 0"
          with su2 have a2: "\<forall>x \<in> set used2. takes_some x \<or> would_block x"
            and b2: "blocked (heap w2 p) \<longleftrightarrow> blocked (heap w' p) \<or> (\<exists>x \<in> set used2. would_block x)"
            and c2: "unat t2 < length data \<longrightarrow> used2 \<noteq> [] \<and> would_block (last used2)"
            and d2: "length (filter takes_some used2) \<le> unat t2 - (unat total_len + unat r)"
            by simp_all
          from ge n2 have "unat total_len + unat r \<le> unat t2" by simp
          with d d2 have "length (filter takes_some (used @ used2)) \<le> unat t2 - unat total_len"
            by simp
          moreover from a a2 have "\<forall>x \<in> set (used @ used2). takes_some x \<or> would_block x"
            by auto
          moreover from b b2 have "blocked (heap w2 p) \<longleftrightarrow>
              blocked (heap w p) \<or> (\<exists>x \<in> set (used @ used2). would_block x)" by auto
          moreover from c2 have "unat t2 < length data \<longrightarrow>
                (used @ used2) \<noteq> [] \<and> would_block (last (used @ used2))" by auto
          ultimately show "(\<forall>x \<in> set (used @ used2). takes_some x \<or> would_block x) \<and>
             (blocked (heap w2 p) \<longleftrightarrow>
                blocked (heap w p) \<or> (\<exists>x \<in> set (used @ used2). would_block x)) \<and>
             (unat t2 < length data \<longrightarrow>
                (used @ used2) \<noteq> [] \<and> would_block (last (used @ used2))) \<and>
             length (filter takes_some (used @ used2)) \<le> unat t2 - unat total_len"
            by blast
        qed
        have "drain_trace w p total_len (w2, t2, l2)"
          unfolding drain_trace_def prod.case data_def [symmetric]
          by (rule exI [of _ "used @ used2"]) (intro conjI sc' fl' su')
        with eq res show ?thesis by simp
      qed
    qed
  qed
qed


subsection \<open>What a drain leaves alone\<close>

lemma same_registry_refl: "same_registry w w"
  by (simp add: same_registry_def)

lemma same_registry_trans:
  "same_registry w w1 \<Longrightarrow> same_registry w1 w2 \<Longrightarrow> same_registry w w2"
  by (simp add: same_registry_def)

lemma same_registry_blocked: "same_registry w (client_set_blocked w p b)"
  by (simp add: same_registry_def client_set_blocked_def console_poller_set_events_def)

lemma same_registry_sockets: "same_registry w (w\<lparr>sockets := s\<rparr>)"
  by (simp add: same_registry_def)

lemma same_registry_rings: "same_registry w (w\<lparr>rings := r\<rparr>)"
  by (simp add: same_registry_def)

lemma send_loop_registry: "same_registry w (snd (send_loop w p buf len block pos))"
proof (induction w p buf len block pos rule: send_loop.induct)
  case (1 w p buf len block pos)
  define data where "data = take (unat (len - pos)) (drop (unat pos) buf)"
  note step = send_loop.simps [of w p buf len block pos, folded data_def]
  obtain s x where sr: "send (sockets w (fd (heap w p))) data = (s, x)" by fastforce
  let ?w = "w\<lparr>sockets := (sockets w)(fd (heap w p) := s)\<rparr>"
  have w1: "same_registry w ?w" by (rule same_registry_sockets)
  have w2: "same_registry w (client_set_blocked ?w p True)"
    using w1 same_registry_blocked by (rule same_registry_trans)
  show ?case
  proof (cases "pos < len")
    case False
    then show ?thesis by (subst step) (simp add: same_registry_refl)
  next
    case True
    show ?thesis
    proof (cases x)
      case (Inl e)
      show ?thesis
      proof (cases "\<not> (\<not> block \<and> (e = EAGAIN \<or> e = EWOULDBLOCK)) \<and> e = EINTR")
        case True': True
        then have nb: "\<not> (\<not> block \<and> (e = EAGAIN \<or> e = EWOULDBLOCK))" and ei: "e = EINTR"
          by simp_all
        from "1.IH"(1) [OF True sr [symmetric, unfolded data_def] Inl refl nb ei]
        have "same_registry ?w (snd (send_loop ?w p buf len block (pos + - 1)))" .
        with w1 have "same_registry w (snd (send_loop ?w p buf len block (pos + - 1)))"
          by (rule same_registry_trans)
        with True sr Inl True' show ?thesis
          by (subst step) (simp add: Let_def del: send.simps)
      next
        case False
        with True sr Inl w1 w2 show ?thesis
          by (subst step) (auto simp: Let_def simp del: send.simps)
      qed
    next
      case (Inr n)
      show ?thesis
      proof (cases "n = 0")
        case True': True
        with True sr Inr w1 show ?thesis
          by (subst step) (simp add: Let_def del: send.simps)
      next
        case False
        from "1.IH"(2) [OF True sr [symmetric, unfolded data_def] Inr refl False]
        have "same_registry ?w (snd (send_loop ?w p buf len block (pos + word_of_nat n)))" .
        with w1 have "same_registry w (snd (send_loop ?w p buf len block (pos + word_of_nat n)))"
          by (rule same_registry_trans)
        with True sr Inr False show ?thesis
          by (subst step) (simp add: Let_def del: send.simps)
      qed
    qed
  qed
qed

lemma send_all_registry: "same_registry w (snd (send_all w p buf len block))"
  by (simp add: send_all_def send_loop_registry same_registry_refl)

lemma drain_loop_registry:
  "same_registry w (fst (drain_loop w p force_len block total_len wlen))"
proof (induction w p force_len block total_len wlen rule: drain_loop.induct)
  case (1 w p force_len block total_len wlen)
  define buf where "buf = ringbuffer_dequeue_peek (rings w (rbc (heap w p))) (unat total_len)"
  define len :: size_t where "len = word_of_nat (length buf)"
  have step: "drain_loop w p force_len block total_len wlen =
      (if len = 0 then (w, total_len, wlen)
       else (case send_all w p buf len block of
               (wlen', w') \<Rightarrow>
                 if wlen' \<le>s 0 then (w', total_len, wlen')
                 else if force_len \<noteq> 0 \<and> force_len \<le> total_len + wlen'
                 then (w', total_len + wlen', wlen')
                 else drain_loop w' p force_len block (total_len + wlen') wlen'))"
    by (subst drain_loop.simps) (simp add: Let_def buf_def len_def)
  obtain r w' where sa: "send_all w p buf len block = (r, w')" by fastforce
  then have w1: "same_registry w w'" using send_all_registry [of w p buf len block] by simp
  show ?case
  proof (cases "len \<noteq> 0 \<and> \<not> r \<le>s 0 \<and> \<not> (force_len \<noteq> 0 \<and> force_len \<le> total_len + r)")
    case True
    then have a: "len \<noteq> 0" "\<not> r \<le>s 0" "\<not> (force_len \<noteq> 0 \<and> force_len \<le> total_len + r)"
      by simp_all
    from "1.IH" [OF buf_def len_def a(1) sa [symmetric] a(2,3)]
    have "same_registry w' (fst (drain_loop w' p force_len block (total_len + r) r))" .
    with w1 have "same_registry w (fst (drain_loop w' p force_len block (total_len + r) r))"
      by (rule same_registry_trans)
    with sa a show ?thesis by (subst step) auto
  next
    case False
    with sa w1 show ?thesis by (subst step) (auto simp: same_registry_refl)
  qed
qed

lemma client_drain_queue_registry:
  "same_registry w (snd (client_drain_queue w p force_len))"
proof -
  obtain w' t l where d: "drain_loop w p force_len (force_len \<noteq> 0) 0 0 = (w', t, l)"
    by (metis prod_cases3)
  with drain_loop_registry [of w p force_len "force_len \<noteq> 0" 0 0]
  have w1: "same_registry w w'" by simp
  then have "same_registry w (w'\<lparr>rings := r\<rparr>)" for r
    using same_registry_rings by (rule same_registry_trans)
  with d w1 show ?thesis
    by (auto simp: client_drain_queue_def Let_def same_registry_refl)
qed

lemma client_drain_queue_plain:
  assumes un: "uninterrupted (sockets w (fd (heap w p)))"
    and small: "length (rb_data (rings w (rbc (heap w p)))) < 2 ^ 63"
    and res: "client_drain_queue w p force_len = (rc, w')"
  shows "rc = - 1 \<or> rc = 0 \<and>
    (\<exists>n \<le> length (rb_data (rings w (rbc (heap w p)))).
       wire (sockets w' (fd (heap w p))) =
         wire (sockets w (fd (heap w p))) @ take n (rb_data (rings w (rbc (heap w p)))) \<and>
       rb_data (rings w' (rbc (heap w p))) = drop n (rb_data (rings w (rbc (heap w p)))) \<and>
       (force_len \<noteq> 0 \<longrightarrow> unat force_len \<le> n) \<and>
       (force_len = 0 \<and> n < length (rb_data (rings w (rbc (heap w p)))) \<longrightarrow>
          blocked (heap w' p)))"
proof (cases "force_len = 0 \<and> blocked (heap w p)")
  case True
  with res have "rc = 0" "w' = w" by (simp_all add: client_drain_queue_def)
  with True show ?thesis by (intro disjI2 conjI exI [of _ 0]) simp_all
next
  case False
  define data where "data = rb_data (rings w (rbc (heap w p)))"
  obtain w1 t l where d: "drain_loop w p force_len (force_len \<noteq> 0) 0 0 = (w1, t, l)"
    by (metis prod_cases3)
  from drain_loop_plain [OF un small, of 0 force_len "force_len \<noteq> 0" 0] d
  have ok: "drain_ok w p force_len 0 (w1, t, l)" by simp
  then have fr: "rings w1 = rings w" "rbc (heap w1 p) = rbc (heap w p)"
    by (simp_all add: drain_ok_def)
  have unf: "client_drain_queue w p force_len =
      (if l <s 0 \<or> (force_len \<noteq> 0 \<and> t < force_len) then (- 1, w1)
       else (0, w1\<lparr>rings := (rings w1)(rbc (heap w1 p) :=
          ringbuffer_dequeue_commit (rings w1 (rbc (heap w1 p))) (unat t))\<rparr>))"
    using False d by (auto simp: client_drain_queue_def Let_def)
  show ?thesis
  proof (cases "l <s 0 \<or> (force_len \<noteq> 0 \<and> t < force_len)")
    case True
    with unf res show ?thesis by simp
  next
    case ok': False
    with unf res have rc: "rc = 0"
      and w': "w' = w1\<lparr>rings := (rings w1)(rbc (heap w1 p) :=
          ringbuffer_dequeue_commit (rings w1 (rbc (heap w1 p))) (unat t))\<rparr>"
      by simp_all
    from ok ok' have t: "unat t \<le> length data"
      and wr: "wire (sockets w1 (fd (heap w p))) = wire (sockets w (fd (heap w p))) @ take (unat t) data"
      and ex: "unat t = length data \<or> force_len \<noteq> 0 \<and> force_len \<le> t \<or> blocked (heap w1 p)"
      by (simp_all add: drain_ok_def data_def)
    have "rb_data (rings w' (rbc (heap w p))) = drop (unat t) data"
      using w' fr by (simp add: ringbuffer_dequeue_commit_def data_def)
    moreover have "wire (sockets w' (fd (heap w p))) =
        wire (sockets w (fd (heap w p))) @ take (unat t) data" using w' wr by simp
    moreover have "force_len \<noteq> 0 \<longrightarrow> unat force_len \<le> unat t"
      using ok' by (auto simp: word_le_nat_alt word_less_nat_alt)
    moreover have "force_len = 0 \<and> unat t < length data \<longrightarrow> blocked (heap w' p)"
      using ex w' by auto
    ultimately show ?thesis using rc t
      by (intro disjI2 conjI exI [of _ "unat t"]) (simp_all add: data_def)
  qed
qed

lemma client_drain_queue_trace:
  assumes un: "uninterrupted (sockets w (fd (heap w p)))"
    and small: "length (rb_data (rings w (rbc (heap w p)))) < 2 ^ 63"
    and nb: "\<not> blocked (heap w p)"
    and res: "client_drain_queue w p 0 = (rc, w')"
  shows "\<exists>used. script (sockets w (fd (heap w p))) = used @ script (sockets w' (fd (heap w p))) \<and>
    (rc \<noteq> 0 \<longrightarrow>
       (used \<noteq> [] \<and> send_fails (last used) \<or> script (sockets w' (fd (heap w p))) = []) \<and>
       (\<exists>m < length (rb_data (rings w (rbc (heap w p)))).
          wire (sockets w' (fd (heap w p))) =
            wire (sockets w (fd (heap w p))) @ take m (rb_data (rings w (rbc (heap w p))))) \<and>
       rings w' = rings w) \<and>
    (rc = 0 \<longrightarrow>
       (\<forall>x \<in> set used. takes_some x \<or> would_block x) \<and>
       (blocked (heap w' p) \<longleftrightarrow> (\<exists>x \<in> set used. would_block x)) \<and>
       (\<exists>n \<le> length (rb_data (rings w (rbc (heap w p)))).
          length (filter takes_some used) \<le> n \<and>
          wire (sockets w' (fd (heap w p))) =
            wire (sockets w (fd (heap w p))) @ take n (rb_data (rings w (rbc (heap w p)))) \<and>
          rb_data (rings w' (rbc (heap w p))) = drop n (rb_data (rings w (rbc (heap w p)))) \<and>
          (n < length (rb_data (rings w (rbc (heap w p)))) \<longrightarrow>
             used \<noteq> [] \<and> would_block (last used))))"
proof -
  let ?d = "fd (heap w p)"
  define data where "data = rb_data (rings w (rbc (heap w p)))"
  obtain w1 t l where d: "drain_loop w p 0 False 0 0 = (w1, t, l)"
    by (metis prod_cases3)
  from drain_loop_plain [OF un small, of 0 0 False 0] d
  have ok: "drain_ok w p 0 0 (w1, t, l)" by simp
  then have fr: "rings w1 = rings w" "rbc (heap w1 p) = rbc (heap w p)"
    by (simp_all add: drain_ok_def)
  from drain_loop_trace [OF un small, of 0 0 False 0] d
  have "drain_trace w p 0 (w1, t, l)" by (simp add: word_sless_alt)
  then obtain used where
    sc: "script (sockets w ?d) = used @ script (sockets w1 ?d)"
    and fl: "l <s 0 \<longrightarrow>
       (used \<noteq> [] \<and> send_fails (last used) \<or> script (sockets w1 ?d) = []) \<and>
       (\<exists>m. m < length data \<and> wire (sockets w1 ?d) = wire (sockets w ?d) @ take m data)"
    and su: "\<not> l <s 0 \<longrightarrow>
       (\<forall>x \<in> set used. takes_some x \<or> would_block x) \<and>
       (blocked (heap w1 p) \<longleftrightarrow> (\<exists>x \<in> set used. would_block x)) \<and>
       (unat t < length data \<longrightarrow> used \<noteq> [] \<and> would_block (last used)) \<and>
       length (filter takes_some used) \<le> unat t"
    using nb by (auto simp: drain_trace_def data_def)
  have unf: "client_drain_queue w p 0 =
      (if l <s 0 then (- 1, w1)
       else (0, w1\<lparr>rings := (rings w1)(rbc (heap w1 p) :=
          ringbuffer_dequeue_commit (rings w1 (rbc (heap w1 p))) (unat t))\<rparr>))"
    using nb d by (simp add: client_drain_queue_def Let_def)
  show ?thesis
  proof (cases "l <s 0")
    case True
    with unf res have rc: "rc = - 1" and w': "w' = w1" by simp_all
    from True fl have "(used \<noteq> [] \<and> send_fails (last used) \<or> script (sockets w1 ?d) = []) \<and>
       (\<exists>m < length data. wire (sockets w1 ?d) = wire (sockets w ?d) @ take m data)"
      by blast
    with sc rc w' fr show ?thesis
      by (intro exI [of _ used]) (simp add: data_def)
  next
    case False
    with unf res have rc: "rc = 0"
      and w': "w' = w1\<lparr>rings := (rings w1)(rbc (heap w1 p) :=
          ringbuffer_dequeue_commit (rings w1 (rbc (heap w1 p))) (unat t))\<rparr>"
      by simp_all
    from ok False have t: "unat t \<le> length data"
      and wr: "wire (sockets w1 ?d) = wire (sockets w ?d) @ take (unat t) data"
      by (simp_all add: drain_ok_def data_def)
    from su False have a: "\<forall>x \<in> set used. takes_some x \<or> would_block x"
      and b: "blocked (heap w1 p) \<longleftrightarrow> (\<exists>x \<in> set used. would_block x)"
      and c: "unat t < length data \<longrightarrow> used \<noteq> [] \<and> would_block (last used)"
      and e: "length (filter takes_some used) \<le> unat t"
      by simp_all
    have rb: "rb_data (rings w' (rbc (heap w p))) = drop (unat t) data"
      using w' fr by (simp add: ringbuffer_dequeue_commit_def data_def)
    have "\<exists>n \<le> length data.
          length (filter takes_some used) \<le> n \<and>
          wire (sockets w' ?d) = wire (sockets w ?d) @ take n data \<and>
          rb_data (rings w' (rbc (heap w p))) = drop n data \<and>
          (n < length data \<longrightarrow> used \<noteq> [] \<and> would_block (last used))"
      using t e wr rb c w' by (intro exI [of _ "unat t"]) simp
    moreover have "script (sockets w ?d) = used @ script (sockets w' ?d)"
      using sc w' by simp
    moreover have "blocked (heap w' p) \<longleftrightarrow> (\<exists>x \<in> set used. would_block x)"
      using b w' by simp
    ultimately show ?thesis
      using rc a unfolding data_def by (intro exI [of _ used]) simp
  qed
qed

subsection \<open>Interrupted sends, and forced drains of a blocked client\<close>

lemma send_all_too_long:
  "SSIZE_MAX < len \<Longrightarrow> send_all w p buf len block = (word_of_int (- EINVAL), w)"
  by (simp add: send_all_def)

lemma send_loop_interrupted:
  assumes "pos < len" "script (sockets w (fd (heap w p))) = Fails EINTR # rest"
  shows "send_loop w p buf len block pos =
    send_loop (w\<lparr>sockets := (sockets w)(fd (heap w p) := (sockets w (fd (heap w p)))\<lparr>script := rest\<rparr>)\<rparr>)
      p buf len block (pos - 1)"
  using assms by (subst send_loop.simps) (simp add: Let_def)

lemma send_loop_would_block:
  assumes "pos < len" "script (sockets w (fd (heap w p))) = Fails e # rest"
    "e = EAGAIN \<or> e = EWOULDBLOCK" "\<not> block"
  shows "send_loop w p buf len block pos =
    (pos, client_set_blocked
       (w\<lparr>sockets := (sockets w)(fd (heap w p) := (sockets w (fd (heap w p)))\<lparr>script := rest\<rparr>)\<rparr>)
       p True)"
  using assms by (subst send_loop.simps) (auto simp: Let_def)

lemma send_loop_hard_error:
  assumes "pos < len" "script (sockets w (fd (heap w p))) = Fails e # rest"
    "e \<noteq> EINTR" "block \<or> (e \<noteq> EAGAIN \<and> e \<noteq> EWOULDBLOCK)"
  shows "send_loop w p buf len block pos =
    (- 1, w\<lparr>sockets := (sockets w)(fd (heap w p) := (sockets w (fd (heap w p)))\<lparr>script := rest\<rparr>)\<rparr>)"
  using assms by (subst send_loop.simps) (auto simp: Let_def)

lemma send_loop_peer_closed:
  assumes "pos < len" "script (sockets w (fd (heap w p))) = Takes 0 # rest"
  shows "fst (send_loop w p buf len block pos) = - 1"
  using assms by (subst send_loop.simps) (simp add: Let_def)

text \<open>
  C3 fails on the code where a call of \<^verbatim>\<open>send\<close> is interrupted. The \<^verbatim>\<open>continue\<close> runs
  the increment \<^verbatim>\<open>pos += rc\<close> with \<^verbatim>\<open>rc\<close> at \<open>-1\<close>. Interrupted at \<^verbatim>\<open>pos = 0\<close>, the
  position wraps to the largest \<^verbatim>\<open>size_t\<close>, the loop ends and \<^verbatim>\<open>send_all\<close> returns
  \<open>-1\<close> without a second attempt: one byte to send, the first call interrupted, the
  second ready to take it. Interrupted after two of three bytes, the position steps back
  by one and the second byte goes out twice.
\<close>

theorem send_all_interrupted:
  "(case send_all (world0 \<lparr>wire = [], script = [Fails EINTR, Takes 1]\<rparr>
                    \<lparr>rb_data = [], rb_wrap = 0\<rparr> False) 1 [97] 1 True of
      (r, w) \<Rightarrow> (sint r, wire (sockets w 5), script (sockets w 5))) = (- 1, [], [Takes 1]) \<and>
   (case send_all (world0 \<lparr>wire = [], script = [Takes 2, Fails EINTR, Takes 2]\<rparr>
                    \<lparr>rb_data = [], rb_wrap = 0\<rparr> False) 1 [97, 98, 99] 3 True of
      (r, w) \<Rightarrow> (sint r, wire (sockets w 5), script (sockets w 5))) = (3, [97, 98, 98, 99], [])"
  by code_simp

text \<open>
  C1 fails on the code through the same interrupted call: a forced drain of the three
  queued bytes \<^verbatim>\<open>abc\<close>, whose second \<^verbatim>\<open>send\<close> is interrupted, reports success and
  commits three bytes, while four bytes went out on the socket, the second one twice.
\<close>

theorem drain_resends_after_interrupt:
  "(case client_drain_queue (world0 \<lparr>wire = [], script = [Takes 2, Fails EINTR, Takes 2]\<rparr>
                    \<lparr>rb_data = [97, 98, 99], rb_wrap = 0\<rparr> False) 1 3 of
      (rc, w) \<Rightarrow> (rc, wire (sockets w 5), rb_data (rings w 9))) = (0, [97, 98, 98, 99], [])"
  by code_simp

text \<open>
  C6 as stated fails: a forced drain does write to the socket of a client whose blocked
  flag is set, with no writability event in between. And a recovery sends only what the
  socket takes: of three uncommitted bytes one goes out, and the client is blocked again
  with the other two still queued.
\<close>

theorem forced_drain_writes_while_blocked:
  "blocked (heap (world0 \<lparr>wire = [], script = [Takes 1]\<rparr> \<lparr>rb_data = [97], rb_wrap = 0\<rparr> True) 1) \<and>
   (case client_ringbuffer_poll
           (world0 \<lparr>wire = [], script = [Takes 1]\<rparr> \<lparr>rb_data = [97], rb_wrap = 0\<rparr> True) 1 1 of
      Inl f \<Rightarrow> None
    | Inr (r, w) \<Rightarrow> Some (r, wire (sockets w 5), blocked (heap w 1))) =
     Some (RINGBUFFER_POLL_OK, [97], True) \<and>
   (case client_poll
           (world0 \<lparr>wire = [97], script = [Takes 1, Fails EAGAIN, Fails EAGAIN]\<rparr>
              \<lparr>rb_data = [98, 99, 100], rb_wrap = 0\<rparr> True)
           1 {POLLOUT} (RecvFails EAGAIN) of
      Some (Inr (r, w)) \<Rightarrow>
        Some (r, wire (sockets w 5), rb_data (rings w 9), blocked (heap w 1))
    | _ \<Rightarrow> None) =
     Some (POLLER_OK, [97, 98], [99, 100], True)"
  by code_simp

section \<open>The life of a client\<close>

lemma find_client_less: "find_client xs p < length xs \<longleftrightarrow> p \<in> set xs"
  by (induction xs) auto

lemma find_client_remove:
  "p \<in> set xs \<Longrightarrow>
     take (find_client xs p) xs @ drop (Suc (find_client xs p)) xs = remove1 p xs"
  by (induction xs) auto

lemma client_close_member:
  assumes "p \<in> allocated w" "p \<in> set (sh_clients w)"
  shows "\<exists>w'. client_close w p = Inr w' \<and> closed_from w p w'"
  using assms
  by (simp add: client_close_def Let_def closed_from_def close_fd_def free_def
        console_poller_unregister_def ringbuffer_consumer_unregister_def
        find_client_less find_client_remove)

lemma client_close_absent:
  "p \<in> allocated w \<Longrightarrow> p \<notin> set (sh_clients w) \<Longrightarrow> client_close w p = Inl AssertFailed"
  by (simp add: client_close_def Let_def close_fd_def free_def
        console_poller_unregister_def ringbuffer_consumer_unregister_def find_client_less)

lemma client_close_freed:
  "p \<notin> allocated w \<Longrightarrow> client_close w p = Inl UseAfterFree"
  by (simp add: client_close_def)

lemma distinct_count: "distinct xs \<Longrightarrow> count_list xs q = (if q \<in> set xs then 1 else 0)"
  by (induction xs) auto

lemma well_formed_count:
  "well_formed w \<Longrightarrow> count_list (sh_clients w) q = (if q \<in> allocated w then 1 else 0)"
  by (auto simp: well_formed_def distinct_count)

lemma new_client_registry:
  "sh_clients (new_client w mp d ph rh) = sh_clients w"
  "allocated (new_client w mp d ph rh) = insert mp (allocated w)"
  "open_fds (new_client w mp d ph rh) = open_fds w"
  "pollers (new_client w mp d ph rh) = insert ph (pollers w)"
  "consumers (new_client w mp d ph rh) = (if rh = 0 then consumers w else insert rh (consumers w))"
  "heap (new_client w mp d ph rh) mp = \<lparr>poller = ph, rbc = rh, fd = d, blocked = False\<rparr>"
  by (simp_all add: new_client_def Let_def calloc_client_def console_poller_register_def
        console_ringbuffer_consumer_register_def)

text \<open>
  C8. Closing a client that is allocated and in the connection set closes its descriptor,
  unregisters its poller and its consumer each only when the handle is held, frees the
  structure and removes it from the set; an allocated client that is not in the set trips
  the assertion. The sequence cannot run a second time on the same client: the structure
  is freed, and closing it again reads freed memory. With every allocated client in the
  set exactly once, that is so again after a close, the closed client is absent from the
  set, and an accepted connection enters the set exactly once.
\<close>

theorem client_close_once:
  "(p \<in> allocated w \<and> p \<in> set (sh_clients w) \<longrightarrow>
      (\<exists>w'. client_close w p = Inr w' \<and>
         open_fds w' = open_fds w - {fd (heap w p)} \<and>
         pollers w' = (if poller (heap w p) \<noteq> 0 then pollers w - {poller (heap w p)}
                       else pollers w) \<and>
         consumers w' = (if rbc (heap w p) \<noteq> 0 then consumers w - {rbc (heap w p)}
                         else consumers w) \<and>
         allocated w' = allocated w - {p} \<and>
         sh_clients w' = remove1 p (sh_clients w) \<and>
         client_close w' p = Inl UseAfterFree \<and>
         (well_formed w \<longrightarrow> well_formed w' \<and> count_list (sh_clients w') p = 0))) \<and>
   (p \<in> allocated w \<and> p \<notin> set (sh_clients w) \<longrightarrow> client_close w p = Inl AssertFailed) \<and>
   (p \<notin> allocated w \<longrightarrow> client_close w p = Inl UseAfterFree) \<and>
   (well_formed w \<longrightarrow> count_list (sh_clients w) q = (if q \<in> allocated w then 1 else 0)) \<and>
   (well_formed w \<and> POLLIN \<in> events \<and> 0 \<le> afd \<and> mp \<noteq> 0 \<and> mp \<notin> allocated w \<longrightarrow>
      (\<exists>w'. socket_poll w events afd mp ph rh = Inr (POLLER_OK, w') \<and>
         well_formed w' \<and> count_list (sh_clients w') mp = 1 \<and>
         heap w' mp = \<lparr>poller = ph, rbc = rh, fd = afd, blocked = False\<rparr>))"
proof (intro conjI impI)
  assume p: "p \<in> allocated w \<and> p \<in> set (sh_clients w)"
  then have "p \<in> allocated w" "p \<in> set (sh_clients w)" by simp_all
  from client_close_member [OF this] obtain w' where
    c: "client_close w p = Inr w'" and f: "closed_from w p w'" by blast
  from f have "p \<notin> allocated w'" by (simp add: closed_from_def)
  then have again: "client_close w' p = Inl UseAfterFree" by (rule client_close_freed)
  have wf: "well_formed w \<longrightarrow> well_formed w' \<and> count_list (sh_clients w') p = 0"
  proof
    assume w: "well_formed w"
    with f have "well_formed w'" by (auto simp: closed_from_def well_formed_def)
    moreover from f w have "p \<notin> set (sh_clients w')"
      by (auto simp: closed_from_def well_formed_def)
    then have "count_list (sh_clients w') p = 0" by (simp add: count_list_0_iff)
    ultimately show "well_formed w' \<and> count_list (sh_clients w') p = 0" by simp
  qed
  show "\<exists>w'. client_close w p = Inr w' \<and>
         open_fds w' = open_fds w - {fd (heap w p)} \<and>
         pollers w' = (if poller (heap w p) \<noteq> 0 then pollers w - {poller (heap w p)}
                       else pollers w) \<and>
         consumers w' = (if rbc (heap w p) \<noteq> 0 then consumers w - {rbc (heap w p)}
                         else consumers w) \<and>
         allocated w' = allocated w - {p} \<and>
         sh_clients w' = remove1 p (sh_clients w) \<and>
         client_close w' p = Inl UseAfterFree \<and>
         (well_formed w \<longrightarrow> well_formed w' \<and> count_list (sh_clients w') p = 0)"
    using c f again wf by (intro exI [of _ w']) (simp add: closed_from_def)
next
  assume "p \<in> allocated w \<and> p \<notin> set (sh_clients w)"
  then show "client_close w p = Inl AssertFailed" by (simp add: client_close_absent)
next
  assume "p \<notin> allocated w"
  then show "client_close w p = Inl UseAfterFree" by (rule client_close_freed)
next
  assume "well_formed w"
  then show "count_list (sh_clients w) q = (if q \<in> allocated w then 1 else 0)"
    by (rule well_formed_count)
next
  assume a: "well_formed w \<and> POLLIN \<in> events \<and> 0 \<le> afd \<and> mp \<noteq> 0 \<and> mp \<notin> allocated w"
  let ?w1 = "new_client (w\<lparr>open_fds := insert afd (open_fds w)\<rparr>) mp afd ph rh"
  let ?w' = "?w1\<lparr>sh_clients := sh_clients ?w1 @ [mp]\<rparr>"
  from a have "socket_poll w events afd mp ph rh = Inr (POLLER_OK, ?w')"
    by (simp add: socket_poll_def Let_def)
  moreover have wf: "well_formed ?w'"
    using a by (auto simp: well_formed_def new_client_registry)
  moreover have "count_list (sh_clients ?w') mp = 1"
    using well_formed_count [OF wf, of mp] by (simp add: new_client_registry)
  moreover have "heap ?w' mp = \<lparr>poller = ph, rbc = rh, fd = afd, blocked = False\<rparr>"
    by (simp add: new_client_registry)
  ultimately show "\<exists>w'. socket_poll w events afd mp ph rh = Inr (POLLER_OK, w') \<and>
               well_formed w' \<and> count_list (sh_clients w') mp = 1 \<and>
               heap w' mp = \<lparr>poller = ph, rbc = rh, fd = afd, blocked = False\<rparr>"
    by blast
qed

section \<open>The callbacks of a client\<close>

lemma pkt_size_nat:
  assumes "n < 2 ^ 64"
  shows "(word_of_nat n :: size_t) < SOCKET_HANDLER_PKT_SIZE \<longleftrightarrow> n < 512"
proof -
  from assms have "unat (word_of_nat n :: size_t) = n" by (simp add: unat_of_nat)
  then show ?thesis by (simp add: word_less_nat_alt SOCKET_HANDLER_PKT_SIZE_def)
qed

text \<open>
  C7. The ring buffer's notification of a client in the connection set: with no flush
  forced and fewer than 512 bytes queued it arms the 4000 microsecond timer of the
  client's poller and returns \<^verbatim>\<open>RINGBUFFER_POLL_OK\<close>, touching neither the socket nor
  the queue; otherwise it drains, returns \<^verbatim>\<open>RINGBUFFER_POLL_OK\<close> when the drain
  succeeds, and when it fails clears the consumer reference, closes the client and
  returns \<^verbatim>\<open>RINGBUFFER_POLL_REMOVE\<close>, leaving the consumer registered. (The close
  reads the client structure: were it not allocated, the failed drain would end in a read
  of freed memory.)
\<close>

theorem ringbuffer_poll_defers_or_drains:
  assumes "p \<in> set (sh_clients w)" "ringbuffer_len (rings w (rbc (heap w p))) < 2 ^ 64"
  shows
    "(force_len = 0 \<and> ringbuffer_len (rings w (rbc (heap w p))) < 512 \<longrightarrow>
        (\<exists>w'. client_ringbuffer_poll w p force_len = Inr (RINGBUFFER_POLL_OK, w') \<and>
           poller_timeout w' (poller (heap w p)) = Some 4000 \<and>
           sockets w' = sockets w \<and> rings w' = rings w \<and> heap w' = heap w \<and>
           sh_clients w' = sh_clients w)) \<and>
     (\<not> (force_len = 0 \<and> ringbuffer_len (rings w (rbc (heap w p))) < 512) \<longrightarrow>
        (\<exists>rc w1. client_drain_queue w p force_len = (rc, w1) \<and>
           (rc = 0 \<longrightarrow> client_ringbuffer_poll w p force_len = Inr (RINGBUFFER_POLL_OK, w1)) \<and>
           (rc \<noteq> 0 \<and> p \<in> allocated w \<longrightarrow>
              (\<exists>w'. client_ringbuffer_poll w p force_len = Inr (RINGBUFFER_POLL_REMOVE, w') \<and>
                 rbc (heap w' p) = 0 \<and> consumers w' = consumers w \<and>
                 open_fds w' = open_fds w - {fd (heap w p)} \<and>
                 pollers w' = (if poller (heap w p) \<noteq> 0 then pollers w - {poller (heap w p)}
                               else pollers w) \<and>
                 allocated w' = allocated w - {p} \<and>
                 sh_clients w' = remove1 p (sh_clients w))) \<and>
           (rc \<noteq> 0 \<and> p \<notin> allocated w \<longrightarrow>
              client_ringbuffer_poll w p force_len = Inl UseAfterFree)))"
proof (intro conjI impI)
  assume a: "force_len = 0 \<and> ringbuffer_len (rings w (rbc (heap w p))) < 512"
  with pkt_size_nat [OF assms(2)]
  have "client_ringbuffer_poll w p force_len =
      Inr (RINGBUFFER_POLL_OK,
        console_poller_set_timeout w (poller (heap w p)) SOCKET_HANDLER_PKT_US_TIMEOUT)"
    by (simp add: client_ringbuffer_poll_def Let_def)
  then show "\<exists>w'. client_ringbuffer_poll w p force_len = Inr (RINGBUFFER_POLL_OK, w') \<and>
           poller_timeout w' (poller (heap w p)) = Some 4000 \<and>
           sockets w' = sockets w \<and> rings w' = rings w \<and> heap w' = heap w \<and>
           sh_clients w' = sh_clients w"
    by (simp add: console_poller_set_timeout_def SOCKET_HANDLER_PKT_US_TIMEOUT_def)
next
  assume a: "\<not> (force_len = 0 \<and> ringbuffer_len (rings w (rbc (heap w p))) < 512)"
  obtain rc w1 where d: "client_drain_queue w p force_len = (rc, w1)" by fastforce
  with client_drain_queue_registry [of w p force_len]
  have reg: "same_registry w w1" by simp
  from a pkt_size_nat [OF assms(2)] d
  have unf: "client_ringbuffer_poll w p force_len =
      (if rc \<noteq> 0 then
         (case client_close (w1\<lparr>heap := (heap w1)(p := (heap w1 p)\<lparr>rbc := 0\<rparr>)\<rparr>) p of
            Inl f \<Rightarrow> Inl f
          | Inr w'' \<Rightarrow> Inr (RINGBUFFER_POLL_REMOVE, w''))
       else Inr (RINGBUFFER_POLL_OK, w1))"
    by (auto simp: client_ringbuffer_poll_def Let_def)
  let ?w2 = "w1\<lparr>heap := (heap w1)(p := (heap w1 p)\<lparr>rbc := 0\<rparr>)\<rparr>"
  have m: "p \<in> set (sh_clients ?w2)" using reg assms(1) by (simp add: same_registry_def)
  have al: "allocated ?w2 = allocated w" using reg by (simp add: same_registry_def)
  have live: "rc \<noteq> 0 \<and> p \<in> allocated w \<longrightarrow>
      (\<exists>w'. client_ringbuffer_poll w p force_len = Inr (RINGBUFFER_POLL_REMOVE, w') \<and>
                 rbc (heap w' p) = 0 \<and> consumers w' = consumers w \<and>
                 open_fds w' = open_fds w - {fd (heap w p)} \<and>
                 pollers w' = (if poller (heap w p) \<noteq> 0 then pollers w - {poller (heap w p)}
                               else pollers w) \<and>
                 allocated w' = allocated w - {p} \<and>
                 sh_clients w' = remove1 p (sh_clients w))"
  proof
    assume r: "rc \<noteq> 0 \<and> p \<in> allocated w"
    with al have "p \<in> allocated ?w2" by simp
    from client_close_member [OF this m] obtain w' where
      c: "client_close ?w2 p = Inr w'" and f: "closed_from ?w2 p w'" by blast
    show "\<exists>w'. client_ringbuffer_poll w p force_len = Inr (RINGBUFFER_POLL_REMOVE, w') \<and>
                 rbc (heap w' p) = 0 \<and> consumers w' = consumers w \<and>
                 open_fds w' = open_fds w - {fd (heap w p)} \<and>
                 pollers w' = (if poller (heap w p) \<noteq> 0 then pollers w - {poller (heap w p)}
                               else pollers w) \<and>
                 allocated w' = allocated w - {p} \<and>
                 sh_clients w' = remove1 p (sh_clients w)"
      using unf c f reg r
      by (intro exI [of _ w']) (simp add: closed_from_def same_registry_def)
  qed
  have freed: "rc \<noteq> 0 \<and> p \<notin> allocated w \<longrightarrow>
      client_ringbuffer_poll w p force_len = Inl UseAfterFree"
  proof
    assume r: "rc \<noteq> 0 \<and> p \<notin> allocated w"
    with al have "p \<notin> allocated ?w2" by simp
    then have "client_close ?w2 p = Inl UseAfterFree" by (rule client_close_freed)
    with unf r show "client_ringbuffer_poll w p force_len = Inl UseAfterFree" by simp
  qed
  from unf d live freed show "\<exists>rc w1. client_drain_queue w p force_len = (rc, w1) \<and>
           (rc = 0 \<longrightarrow> client_ringbuffer_poll w p force_len = Inr (RINGBUFFER_POLL_OK, w1)) \<and>
           (rc \<noteq> 0 \<and> p \<in> allocated w \<longrightarrow>
              (\<exists>w'. client_ringbuffer_poll w p force_len = Inr (RINGBUFFER_POLL_REMOVE, w') \<and>
                 rbc (heap w' p) = 0 \<and> consumers w' = consumers w \<and>
                 open_fds w' = open_fds w - {fd (heap w p)} \<and>
                 pollers w' = (if poller (heap w p) \<noteq> 0 then pollers w - {poller (heap w p)}
                               else pollers w) \<and>
                 allocated w' = allocated w - {p} \<and>
                 sh_clients w' = remove1 p (sh_clients w))) \<and>
           (rc \<noteq> 0 \<and> p \<notin> allocated w \<longrightarrow>
              client_ringbuffer_poll w p force_len = Inl UseAfterFree)"
    by (intro exI [of _ rc] exI [of _ w1]) simp
qed

text \<open>
  C6, amended. While the blocked flag is set, an unforced drain returns at once and
  leaves the socket alone, the idle timer does nothing, and an unforced notification of
  the ring buffer writes nothing. A writability event clears the flag, takes
  \<^verbatim>\<open>POLLOUT\<close> out of the events of the client's poller, and runs an unforced drain from
  there. When no call of \<^verbatim>\<open>send\<close> is interrupted, that drain ends in one of two ways.
  Either every call of \<^verbatim>\<open>send\<close> it made took some bytes or would have blocked: then a
  prefix of the uncommitted bytes went out, in order and once each, at least one byte for
  every call that took some, exactly that prefix is committed, the client is blocked
  afterwards exactly if one of the calls would have blocked, and the prefix falls short of
  everything only when the last call would have blocked. Or the last call failed, or the
  peer was gone: then not all of the uncommitted bytes went out, nothing is committed and
  the client is closed.
\<close>

theorem blocked_client_resumes_on_writability:
  assumes "blocked (heap w p)"
  shows
    "client_drain_queue w p 0 = (0, w) \<and>
     client_timeout w p = Inr (POLLER_OK, w) \<and>
     (\<exists>w'. client_ringbuffer_poll w p 0 = Inr (RINGBUFFER_POLL_OK, w') \<and>
        sockets w' = sockets w \<and> rings w' = rings w \<and> heap w' = heap w) \<and>
     \<not> blocked (heap (client_set_blocked w p False) p) \<and>
     poller_events (client_set_blocked w p False) (poller (heap w p)) = {POLLIN} \<and>
     client_poll w p {POLLOUT} rcv =
       Some (case client_drain_queue (client_set_blocked w p False) p 0 of
               (rc, w') \<Rightarrow> if rc \<noteq> 0 then err_close w' p else Inr (POLLER_OK, w')) \<and>
     (uninterrupted (sockets w (fd (heap w p))) \<and>
      length (rb_data (rings w (rbc (heap w p)))) < 2 ^ 63 \<and> p \<in> allocated w \<and>
      p \<in> set (sh_clients w) \<longrightarrow>
        (\<exists>n w' used.
           client_poll w p {POLLOUT} rcv = Some (Inr (POLLER_OK, w')) \<and>
           script (sockets w (fd (heap w p))) = used @ script (sockets w' (fd (heap w p))) \<and>
           (\<forall>x \<in> set used. takes_some x \<or> would_block x) \<and>
           n \<le> length (rb_data (rings w (rbc (heap w p)))) \<and>
           length (filter takes_some used) \<le> n \<and>
           wire (sockets w' (fd (heap w p))) =
             wire (sockets w (fd (heap w p))) @ take n (rb_data (rings w (rbc (heap w p)))) \<and>
           rb_data (rings w' (rbc (heap w p))) = drop n (rb_data (rings w (rbc (heap w p)))) \<and>
           (blocked (heap w' p) \<longleftrightarrow> (\<exists>x \<in> set used. would_block x)) \<and>
           (n < length (rb_data (rings w (rbc (heap w p)))) \<longrightarrow>
              used \<noteq> [] \<and> would_block (last used) \<and> blocked (heap w' p))) \<or>
        (\<exists>m w' used.
           client_poll w p {POLLOUT} rcv = Some (Inr (POLLER_REMOVE, w')) \<and>
           script (sockets w (fd (heap w p))) = used @ script (sockets w' (fd (heap w p))) \<and>
           (used \<noteq> [] \<and> send_fails (last used) \<or> script (sockets w' (fd (heap w p))) = []) \<and>
           m < length (rb_data (rings w (rbc (heap w p)))) \<and>
           wire (sockets w' (fd (heap w p))) =
             wire (sockets w (fd (heap w p))) @ take m (rb_data (rings w (rbc (heap w p)))) \<and>
           rings w' = rings w \<and>
           sh_clients w' = remove1 p (sh_clients w) \<and> p \<notin> allocated w' \<and>
           fd (heap w p) \<notin> open_fds w'))"
proof (intro conjI impI)
  show d0: "client_drain_queue w p 0 = (0, w)"
    using assms by (simp add: client_drain_queue_def)
  then show "client_timeout w p = Inr (POLLER_OK, w)"
    using assms by (simp add: client_timeout_def)
  show "\<exists>w'. client_ringbuffer_poll w p 0 = Inr (RINGBUFFER_POLL_OK, w') \<and>
        sockets w' = sockets w \<and> rings w' = rings w \<and> heap w' = heap w"
    using d0 by (simp add: client_ringbuffer_poll_def Let_def console_poller_set_timeout_def)
  show "\<not> blocked (heap (client_set_blocked w p False) p)"
    by (simp add: client_set_blocked_def console_poller_set_events_def)
  show "poller_events (client_set_blocked w p False) (poller (heap w p)) = {POLLIN}"
    using assms by (simp add: client_set_blocked_def console_poller_set_events_def)
  show "client_poll w p {POLLOUT} rcv =
       Some (case client_drain_queue (client_set_blocked w p False) p 0 of
               (rc, w') \<Rightarrow> if rc \<noteq> 0 then err_close w' p else Inr (POLLER_OK, w'))"
    by (simp add: client_poll_def client_poll_out_def)
next
  assume a: "uninterrupted (sockets w (fd (heap w p))) \<and>
      length (rb_data (rings w (rbc (heap w p)))) < 2 ^ 63 \<and> p \<in> allocated w \<and>
      p \<in> set (sh_clients w)"
  let ?w0 = "client_set_blocked w p False"
  let ?d = "fd (heap w p)"
  define data where "data = rb_data (rings w (rbc (heap w p)))"
  have fr0: "fd (heap ?w0 p) = fd (heap w p)" "rbc (heap ?w0 p) = rbc (heap w p)"
    "sockets ?w0 = sockets w" "rings ?w0 = rings w"
    by (simp_all add: client_set_blocked_frame)
  have nb0: "\<not> blocked (heap ?w0 p)"
    by (simp add: client_set_blocked_def console_poller_set_events_def)
  have reg0: "same_registry w ?w0" by (rule same_registry_blocked)
  obtain rc w1 where d: "client_drain_queue ?w0 p 0 = (rc, w1)" by fastforce
  with client_drain_queue_registry [of ?w0 p 0] have "same_registry ?w0 w1" by simp
  with reg0 have reg: "same_registry w w1" by (rule same_registry_trans)
  have cp: "client_poll w p {POLLOUT} rcv =
      Some (if rc \<noteq> 0 then err_close w1 p else Inr (POLLER_OK, w1))"
    using d by (simp add: client_poll_def client_poll_out_def)
  from a have "uninterrupted (sockets ?w0 (fd (heap ?w0 p)))"
    "length (rb_data (rings ?w0 (rbc (heap ?w0 p)))) < 2 ^ 63"
    by (simp_all add: fr0)
  from client_drain_queue_trace [OF this nb0 d]
  obtain used where
    sc: "script (sockets w ?d) = used @ script (sockets w1 ?d)"
    and fl: "rc \<noteq> 0 \<longrightarrow>
       (used \<noteq> [] \<and> send_fails (last used) \<or> script (sockets w1 ?d) = []) \<and>
       (\<exists>m < length data. wire (sockets w1 ?d) = wire (sockets w ?d) @ take m data) \<and>
       rings w1 = rings w"
    and su: "rc = 0 \<longrightarrow>
       (\<forall>x \<in> set used. takes_some x \<or> would_block x) \<and>
       (blocked (heap w1 p) \<longleftrightarrow> (\<exists>x \<in> set used. would_block x)) \<and>
       (\<exists>n \<le> length data.
          length (filter takes_some used) \<le> n \<and>
          wire (sockets w1 ?d) = wire (sockets w ?d) @ take n data \<and>
          rb_data (rings w1 (rbc (heap w p))) = drop n data \<and>
          (n < length data \<longrightarrow> used \<noteq> [] \<and> would_block (last used)))"
    unfolding fr0 data_def by blast
  show "(\<exists>n w' used.
           client_poll w p {POLLOUT} rcv = Some (Inr (POLLER_OK, w')) \<and>
           script (sockets w (fd (heap w p))) = used @ script (sockets w' (fd (heap w p))) \<and>
           (\<forall>x \<in> set used. takes_some x \<or> would_block x) \<and>
           n \<le> length (rb_data (rings w (rbc (heap w p)))) \<and>
           length (filter takes_some used) \<le> n \<and>
           wire (sockets w' (fd (heap w p))) =
             wire (sockets w (fd (heap w p))) @ take n (rb_data (rings w (rbc (heap w p)))) \<and>
           rb_data (rings w' (rbc (heap w p))) = drop n (rb_data (rings w (rbc (heap w p)))) \<and>
           (blocked (heap w' p) \<longleftrightarrow> (\<exists>x \<in> set used. would_block x)) \<and>
           (n < length (rb_data (rings w (rbc (heap w p)))) \<longrightarrow>
              used \<noteq> [] \<and> would_block (last used) \<and> blocked (heap w' p))) \<or>
        (\<exists>m w' used.
           client_poll w p {POLLOUT} rcv = Some (Inr (POLLER_REMOVE, w')) \<and>
           script (sockets w (fd (heap w p))) = used @ script (sockets w' (fd (heap w p))) \<and>
           (used \<noteq> [] \<and> send_fails (last used) \<or> script (sockets w' (fd (heap w p))) = []) \<and>
           m < length (rb_data (rings w (rbc (heap w p)))) \<and>
           wire (sockets w' (fd (heap w p))) =
             wire (sockets w (fd (heap w p))) @ take m (rb_data (rings w (rbc (heap w p)))) \<and>
           rings w' = rings w \<and>
           sh_clients w' = remove1 p (sh_clients w) \<and> p \<notin> allocated w' \<and>
           fd (heap w p) \<notin> open_fds w')"
  proof (cases "rc = 0")
    case True
    with su obtain n where a1: "\<forall>x \<in> set used. takes_some x \<or> would_block x"
      and b1: "blocked (heap w1 p) \<longleftrightarrow> (\<exists>x \<in> set used. would_block x)"
      and n: "n \<le> length data" "length (filter takes_some used) \<le> n"
        "wire (sockets w1 ?d) = wire (sockets w ?d) @ take n data"
        "rb_data (rings w1 (rbc (heap w p))) = drop n data"
      and c1: "n < length data \<longrightarrow> used \<noteq> [] \<and> would_block (last used)"
      by blast
    have "n < length data \<longrightarrow> used \<noteq> [] \<and> would_block (last used) \<and> blocked (heap w1 p)"
    proof
      assume "n < length data"
      with c1 have u: "used \<noteq> []" "would_block (last used)" by simp_all
      then have "last used \<in> set used" by simp
      with u b1 show "used \<noteq> [] \<and> would_block (last used) \<and> blocked (heap w1 p)" by blast
    qed
    with cp True sc a1 b1 n show ?thesis
      by (intro disjI1 exI [of _ n] exI [of _ w1] exI [of _ used]) (simp add: data_def)
  next
    case False
    with fl obtain m where
      c2: "used \<noteq> [] \<and> send_fails (last used) \<or> script (sockets w1 ?d) = []"
      and m: "m < length data" "wire (sockets w1 ?d) = wire (sockets w ?d) @ take m data"
      and r1: "rings w1 = rings w" by blast
    let ?w2 = "w1\<lparr>heap := (heap w1)(p := (heap w1 p)\<lparr>poller := 0\<rparr>)\<rparr>"
    have mem: "p \<in> allocated ?w2" "p \<in> set (sh_clients ?w2)"
      using reg a by (simp_all add: same_registry_def)
    from client_close_member [OF mem] obtain w' where
      c: "client_close ?w2 p = Inr w'" and f: "closed_from ?w2 p w'" by blast
    have "client_poll w p {POLLOUT} rcv = Some (Inr (POLLER_REMOVE, w'))"
      using cp False c by (simp add: err_close_def)
    moreover have "p \<notin> allocated w'" "fd (heap w p) \<notin> open_fds w'"
      using f reg by (simp_all add: closed_from_def same_registry_def)
    moreover have "sh_clients w' = remove1 p (sh_clients w)"
      using f reg by (simp add: closed_from_def same_registry_def)
    moreover have "sockets w' = sockets w1" "rings w' = rings w"
      using f r1 by (simp_all add: closed_from_def)
    ultimately show ?thesis
      using sc c2 m
      by (intro disjI2 exI [of _ m] exI [of _ w'] exI [of _ used]) (simp add: data_def)
  qed
qed

section \<open>Attaching through the back channel, and the handler at work\<close>




lemma attach_well_formed:
  assumes "well_formed w" "mp \<notin> allocated w"
  shows "well_formed (snd (dbus_create_socket_consumer w sp mp ph rh))"
proof (cases sp)
  case (PairFails e e')
  with assms(1) show ?thesis by (simp add: dbus_create_socket_consumer_def)
next
  case (Pair fd0 fd1)
  with assms show ?thesis
    by (auto simp: dbus_create_socket_consumer_def Let_def well_formed_def close_fd_def
          free_def new_client_registry)
qed

text \<open>Closing the one client of the example world, closing it again, closing a
  structure that was never allocated, and closing the client when the array does not hold
  it.\<close>

theorem client_close_once_witness:
  "well_formed (world0 \<lparr>wire = [], script = []\<rparr> \<lparr>rb_data = [], rb_wrap = 0\<rparr> False) \<and>
   1 \<in> allocated (world0 \<lparr>wire = [], script = []\<rparr> \<lparr>rb_data = [], rb_wrap = 0\<rparr> False) \<and>
   1 \<in> set (sh_clients (world0 \<lparr>wire = [], script = []\<rparr> \<lparr>rb_data = [], rb_wrap = 0\<rparr> False)) \<and>
   (case client_close (world0 \<lparr>wire = [], script = []\<rparr> \<lparr>rb_data = [], rb_wrap = 0\<rparr> False) 1 of
      Inl f \<Rightarrow> None
    | Inr w' \<Rightarrow> Some (sh_clients w', 5 \<in> open_fds w', 7 \<in> pollers w', 9 \<in> consumers w',
                 1 \<in> allocated w', client_close w' 1)) =
     Some ([], False, False, False, False, Inl UseAfterFree) \<and>
   client_close (world0 \<lparr>wire = [], script = []\<rparr> \<lparr>rb_data = [], rb_wrap = 0\<rparr> False) 2 =
     Inl UseAfterFree \<and>
   client_close
     ((world0 \<lparr>wire = [], script = []\<rparr> \<lparr>rb_data = [], rb_wrap = 0\<rparr> False)\<lparr>sh_clients := []\<rparr>) 1 =
     Inl AssertFailed"
proof -
  let ?W = "world0 \<lparr>wire = [], script = []\<rparr> \<lparr>rb_data = [], rb_wrap = 0\<rparr> False"
  have h: "well_formed ?W" "1 \<in> allocated ?W" "1 \<in> set (sh_clients ?W)"
    by (simp_all add: well_formed_def world0_def)
  have "(case client_close ?W 1 of
      Inl f \<Rightarrow> None
    | Inr w' \<Rightarrow> Some (sh_clients w', 5 \<in> open_fds w', 7 \<in> pollers w', 9 \<in> consumers w',
                 1 \<in> allocated w', client_close w' 1)) =
     Some ([], False, False, False, False, Inl UseAfterFree)"
    by (simp add: client_close_def world0_def Let_def close_fd_def free_def
          console_poller_unregister_def ringbuffer_consumer_unregister_def)
  moreover have "client_close ?W 2 = Inl UseAfterFree"
    by (simp add: client_close_def world0_def)
  moreover have "client_close (?W\<lparr>sh_clients := []\<rparr>) 1 = Inl AssertFailed"
    using client_close_once [of 1 "?W\<lparr>sh_clients := []\<rparr>" 2 "{POLLIN}" 6 2 8 6]
    by (simp add: world0_def)
  ultimately show ?thesis
    using h client_close_once [of 1 ?W 2 "{POLLIN}" 6 2 8 6] by simp
qed

text \<open>One byte queued: an unforced notification arms the timer; a forced one drains,
  fails on the dead socket and removes the client.\<close>

theorem ringbuffer_poll_defers_or_drains_witness:
  "1 \<in> set (sh_clients (world0 \<lparr>wire = [], script = []\<rparr> \<lparr>rb_data = [97], rb_wrap = 0\<rparr> False)) \<and>
   (case client_ringbuffer_poll
           (world0 \<lparr>wire = [], script = []\<rparr> \<lparr>rb_data = [97], rb_wrap = 0\<rparr> False) 1 0 of
      Inl f \<Rightarrow> None
    | Inr (r, w') \<Rightarrow> Some (r, poller_timeout w' 7, wire (sockets w' 5), rb_data (rings w' 9))) =
     Some (RINGBUFFER_POLL_OK, Some 4000, [], [97]) \<and>
   (case client_ringbuffer_poll
           (world0 \<lparr>wire = [], script = []\<rparr> \<lparr>rb_data = [97], rb_wrap = 0\<rparr> False) 1 1 of
      Inl f \<Rightarrow> None
    | Inr (r, w') \<Rightarrow> Some (r, sh_clients w', rbc (heap w' 1))) =
     Some (RINGBUFFER_POLL_REMOVE, [], 0)"
proof -
  let ?W = "world0 \<lparr>wire = [], script = []\<rparr> \<lparr>rb_data = [97], rb_wrap = 0\<rparr> False"
  have h: "1 \<in> set (sh_clients ?W)" "ringbuffer_len (rings ?W (rbc (heap ?W 1))) < 2 ^ 64"
    by (simp_all add: world0_def ringbuffer_len_def)
  have a: "1 \<in> allocated ?W" by (simp add: world0_def)
  have "(case client_ringbuffer_poll ?W 1 0 of
      Inl f \<Rightarrow> None
    | Inr (r, w') \<Rightarrow> Some (r, poller_timeout w' 7, wire (sockets w' 5), rb_data (rings w' 9))) =
     Some (RINGBUFFER_POLL_OK, Some 4000, [], [97])"
    by code_simp
  moreover have "(case client_ringbuffer_poll ?W 1 1 of
      Inl f \<Rightarrow> None
    | Inr (r, w') \<Rightarrow> Some (r, sh_clients w', rbc (heap w' 1))) =
     Some (RINGBUFFER_POLL_REMOVE, [], 0)"
    by code_simp
  ultimately show ?thesis
    using h a ringbuffer_poll_defers_or_drains [OF h, of 0]
      ringbuffer_poll_defers_or_drains [OF h, of 1] by simp
qed

text \<open>A blocked client with \<^verbatim>\<open>a\<close> on the wire and \<^verbatim>\<open>bc\<close> queued: the unforced drain
  does nothing, the writability event sends \<^verbatim>\<open>bc\<close> and leaves the client unblocked. On
  a socket that takes one byte and then fails, the writability event sends \<^verbatim>\<open>b\<close> and
  closes the client.\<close>

theorem blocked_client_resumes_on_writability_witness:
  "blocked (heap (world0 \<lparr>wire = [97], script = [Takes 5]\<rparr> \<lparr>rb_data = [98, 99], rb_wrap = 0\<rparr> True) 1) \<and>
   uninterrupted \<lparr>wire = [97], script = [Takes 5]\<rparr> \<and>
   1 \<in> allocated (world0 \<lparr>wire = [97], script = [Takes 5]\<rparr> \<lparr>rb_data = [98, 99], rb_wrap = 0\<rparr> True) \<and>
   1 \<in> set (sh_clients
     (world0 \<lparr>wire = [97], script = [Takes 5]\<rparr> \<lparr>rb_data = [98, 99], rb_wrap = 0\<rparr> True)) \<and>
   length [98 :: byte, 99] < 2 ^ 63 \<and>
   (case client_drain_queue
           (world0 \<lparr>wire = [97], script = [Takes 5]\<rparr> \<lparr>rb_data = [98, 99], rb_wrap = 0\<rparr> True) 1 0 of
      (rc, w') \<Rightarrow> (rc, wire (sockets w' 5), script (sockets w' 5), rb_data (rings w' 9))) =
     (0, [97], [Takes 5], [98, 99]) \<and>
   (case client_poll
           (world0 \<lparr>wire = [97], script = [Takes 5]\<rparr> \<lparr>rb_data = [98, 99], rb_wrap = 0\<rparr> True)
           1 {POLLOUT} (RecvFails EAGAIN) of
      Some (Inr (r, w')) \<Rightarrow>
        Some (r, wire (sockets w' 5), script (sockets w' 5), rb_data (rings w' 9),
              blocked (heap w' 1), poller_events w' 7)
    | _ \<Rightarrow> None) =
     Some (POLLER_OK, [97, 98, 99], [], [], False, {POLLIN}) \<and>
   (case client_poll
           (world0 \<lparr>wire = [97], script = [Takes 1, Fails ECONNRESET]\<rparr>
              \<lparr>rb_data = [98, 99], rb_wrap = 0\<rparr> True)
           1 {POLLOUT} (RecvFails EAGAIN) of
      Some (Inr (r, w')) \<Rightarrow>
        Some (r, wire (sockets w' 5), script (sockets w' 5), rb_data (rings w' 9),
              sh_clients w', 1 \<in> allocated w')
    | _ \<Rightarrow> None) =
     Some (POLLER_REMOVE, [97, 98], [], [98, 99], [], False)"
proof -
  let ?W = "world0 \<lparr>wire = [97], script = [Takes 5]\<rparr> \<lparr>rb_data = [98, 99], rb_wrap = 0\<rparr> True"
  have h: "blocked (heap ?W 1)" by (simp add: world0_def)
  have u: "uninterrupted \<lparr>wire = [97], script = [Takes 5]\<rparr>" by (simp add: uninterrupted_def)
  have a: "1 \<in> allocated ?W" "1 \<in> set (sh_clients ?W)" by (simp_all add: world0_def)
  note t = blocked_client_resumes_on_writability [OF h, of "RecvFails EAGAIN"]
  from t have "client_drain_queue ?W 1 0 = (0, ?W)" by (rule conjunct1)
  then have "(case client_drain_queue ?W 1 0 of
      (rc, w') \<Rightarrow> (rc, wire (sockets w' 5), script (sockets w' 5), rb_data (rings w' 9))) =
     (0, [97], [Takes 5], [98, 99])"
    by (simp add: world0_def)
  moreover have "(case client_poll ?W 1 {POLLOUT} (RecvFails EAGAIN) of
      Some (Inr (r, w')) \<Rightarrow>
        Some (r, wire (sockets w' 5), script (sockets w' 5), rb_data (rings w' 9),
              blocked (heap w' 1), poller_events w' 7)
    | _ \<Rightarrow> None) =
     Some (POLLER_OK, [97, 98, 99], [], [], False, {POLLIN})"
    by code_simp
  moreover have "(case client_poll
           (world0 \<lparr>wire = [97], script = [Takes 1, Fails ECONNRESET]\<rparr>
              \<lparr>rb_data = [98, 99], rb_wrap = 0\<rparr> True)
           1 {POLLOUT} (RecvFails EAGAIN) of
      Some (Inr (r, w')) \<Rightarrow>
        Some (r, wire (sockets w' 5), script (sockets w' 5), rb_data (rings w' 9),
              sh_clients w', 1 \<in> allocated w')
    | _ \<Rightarrow> None) =
     Some (POLLER_REMOVE, [97, 98], [], [98, 99], [], False)"
    by code_simp
  ultimately show ?thesis using h u a t by simp
qed

end
